theory Spec2Isabelle
  imports Main "HOL-Library.Sublist" "HOL-Library.Char_ord" "HOL-Library.List_Lexorder"
begin

section \<open>Text and the library functions the scripts call\<close>

text \<open>
  A Python \<open>str\<close> is a sequence of code points. Text is modelled as \<^typ>\<open>string\<close>, one
  \<^typ>\<open>char\<close> per code point, so the alphabet is the code points 0..255 and
  \<open>length\<close> counts what \<open>len\<close> counts. The library predicates below are the ones of
  Python on that range. \<open>unicodedata.normalize("NFKC", s)\<close> is a library table; it is
  the identity on ASCII text and is taken as a parameter \<open>nfkc\<close> of the pipeline.
\<close>

definition LF :: char where "LF = char_of (10::nat)"
definition CR :: char where "CR = char_of (13::nat)"

text \<open>\<open>str.isspace\<close>, which is also what \<open>str.strip()\<close> removes and what \<open>\s\<close> matches.\<close>

definition isspace :: "char \<Rightarrow> bool" where
  "isspace c = (let n = (of_char c :: nat) in
     (9 \<le> n \<and> n \<le> 13) \<or> (28 \<le> n \<and> n \<le> 32) \<or> n = 133 \<or> n = 160)"

text \<open>The regex classes \<open>[a-zA-Z]\<close>, \<open>\d\<close> (decimal digits) and \<open>[A-Za-z0-9]\<close>.\<close>

definition is_letter :: "char \<Rightarrow> bool" where
  "is_letter c = (let n = (of_char c :: nat) in
     (65 \<le> n \<and> n \<le> 90) \<or> (97 \<le> n \<and> n \<le> 122))"

definition is_digit :: "char \<Rightarrow> bool" where
  "is_digit c = (let n = (of_char c :: nat) in 48 \<le> n \<and> n \<le> 57)"

definition is_alnum :: "char \<Rightarrow> bool" where
  "is_alnum c = (is_letter c \<or> is_digit c)"

text \<open>\<open>str.lower()\<close>: A-Z and the upper-case letters U+00C0..U+00DE (not the sign U+00D7).\<close>

definition lower_char :: "char \<Rightarrow> char" where
  "lower_char c = (let n = (of_char c :: nat) in
     if (65 \<le> n \<and> n \<le> 90) \<or> (192 \<le> n \<and> n \<le> 222 \<and> n \<noteq> 215)
     then char_of (n + 32) else c)"

definition lower :: "string \<Rightarrow> string" where
  "lower s = map lower_char s"

definition lstrip :: "string \<Rightarrow> string" where
  "lstrip s = dropWhile isspace s"

definition rstrip :: "string \<Rightarrow> string" where
  "rstrip s = rev (dropWhile isspace (rev s))"

definition strip :: "string \<Rightarrow> string" where
  "strip s = lstrip (rstrip s)"

text \<open>\<open>line.rstrip("\n\r")\<close>.\<close>

definition rstrip_newlines :: "string \<Rightarrow> string" where
  "rstrip_newlines s = rev (dropWhile (\<lambda>c. c = LF \<or> c = CR) (rev s))"

text \<open>\<open>s.split(sep)\<close> for a one-character separator: never the empty list.\<close>

fun split_on :: "char \<Rightarrow> string \<Rightarrow> string list" where
  "split_on sep [] = [[]]"
| "split_on sep (c # cs) =
     (if c = sep then [] # split_on sep cs
      else (case split_on sep cs of
              [] \<Rightarrow> [[c]]
            | seg # segs \<Rightarrow> (c # seg) # segs))"

text \<open>\<open>sub in s\<close> and \<open>s.find(sub)\<close> for strings.\<close>

fun contains :: "string \<Rightarrow> string \<Rightarrow> bool" where
  "contains sub [] = (sub = [])"
| "contains sub (c # cs) = (take (length sub) (c # cs) = sub \<or> contains sub cs)"

fun find_str :: "string \<Rightarrow> string \<Rightarrow> nat option" where
  "find_str sub [] = (if sub = [] then Some 0 else None)"
| "find_str sub (c # cs) =
     (if take (length sub) (c # cs) = sub then Some 0 else map_option Suc (find_str sub cs))"

text \<open>
  \<open>urllib.parse.quote(s, safe="/-._~")\<close>: the text is encoded to UTF-8 and every byte
  that is not an ASCII letter, a digit or one of \<open>_.-~/\<close> becomes \<open>%XX\<close> in upper-case
  hexadecimal. A code point below 128 is one byte; one in 128..255 is the two bytes
  \<open>0xC0 + n div 64\<close> and \<open>0x80 + n mod 64\<close>.
\<close>

definition hex_digit :: "nat \<Rightarrow> char" where
  "hex_digit n = ''0123456789ABCDEF'' ! (n mod 16)"

definition quote_byte :: "nat \<Rightarrow> string" where
  "quote_byte b = [CHR ''%'', hex_digit (b div 16), hex_digit (b mod 16)]"

definition is_safe :: "char \<Rightarrow> bool" where
  "is_safe c = (is_alnum c \<or> c \<in> set ''_.-~/'')"

definition quote_char :: "char \<Rightarrow> string" where
  "quote_char c = (let n = (of_char c :: nat) in
     if n < 128 then (if is_safe c then [c] else quote_byte n)
     else quote_byte (192 + n div 64) @ quote_byte (128 + n mod 64))"

definition percent_encode_keep_slash :: "string \<Rightarrow> string" where
  "percent_encode_keep_slash s = concat (map quote_char s)"

text \<open>
  Two of the scripts test a line for the byte-order mark U+FEFF, which is outside this
  alphabet. A line as they read it is \<open>Line k s\<close>: \<open>k\<close> byte-order marks followed by the
  text \<open>s\<close> of the alphabet. \<open>line.lstrip("\ufeff")\<close> removes the marks. The mark is no
  white space and no line terminator, so \<open>strip\<close> and \<open>rstrip("\r\n")\<close> leave the marks
  of a line in front of it.
\<close>

datatype raw_line = Line (bom_count: nat) (text_of: string)

fun lstrip_BOM :: "raw_line \<Rightarrow> string" where
  "lstrip_BOM (Line k s) = s"

section \<open>clean\_directory\_wordlist.py\<close>

subsection \<open>Patterns\<close>

text \<open>
  \<open>URL_SCHEME_HOST_RE.sub("", s)\<close> with
  \<open>^[a-zA-Z][a-zA-Z0-9+\-.]*://[^/]+\<close>: a letter, the longest run of scheme
  characters (the run cannot be shortened, \<open>:\<close> is not one of them), \<open>://\<close>, and the
  longest non-empty run of characters other than \<open>/\<close>. The match is removed.
\<close>

definition is_scheme_char :: "char \<Rightarrow> bool" where
  "is_scheme_char c = (is_alnum c \<or> c \<in> set ''+-.'')"

definition URL_SCHEME_HOST_sub :: "string \<Rightarrow> string" where
  "URL_SCHEME_HOST_sub s =
     (case s of
        [] \<Rightarrow> s
      | c # cs \<Rightarrow>
          if is_letter c then
            (let after = dropWhile is_scheme_char cs;
                 host = takeWhile (\<lambda>x. x \<noteq> CHR ''/'') (drop 3 after)
             in if take 3 after = ''://'' \<and> host \<noteq> []
                then dropWhile (\<lambda>x. x \<noteq> CHR ''/'') (drop 3 after)
                else s)
          else s)"

text \<open>
  \<open>QUERY_FRAGMENT_RE.sub("", s)\<close> with \<open>[\?#].*$\<close>: the leftmost \<open>?\<close> or \<open>#\<close> from
  which \<open>.*\<close> reaches the end; \<open>.\<close> does not match a line feed. The text it is applied to
  has been stripped, so it does not end in a line feed.
\<close>

fun QUERY_FRAGMENT_sub :: "string \<Rightarrow> string" where
  "QUERY_FRAGMENT_sub [] = []"
| "QUERY_FRAGMENT_sub (c # cs) =
     (if (c = CHR ''?'' \<or> c = CHR ''#'') \<and> LF \<notin> set cs then []
      else c # QUERY_FRAGMENT_sub cs)"

text \<open>\<open>COMMENT_RE.match(t)\<close> with \<open>^\s*#\<close>.\<close>

definition COMMENT_RE_match :: "string \<Rightarrow> bool" where
  "COMMENT_RE_match t = (case dropWhile isspace t of [] \<Rightarrow> False | c # _ \<Rightarrow> c = CHR ''#'')"

text \<open>\<open>MULTI_SLASH_RE.sub('/', s)\<close> with \<open>/+\<close>.\<close>

fun collapse_slashes :: "string \<Rightarrow> string" where
  "collapse_slashes [] = []"
| "collapse_slashes [c] = [c]"
| "collapse_slashes (c # d # cs) =
     (if c = CHR ''/'' \<and> d = CHR ''/'' then collapse_slashes (d # cs)
      else c # collapse_slashes (d # cs))"

text \<open>
  From here on the candidate has passed \<open>normalize_and_map\<close>, which removes every control
  character, so it holds no line feed and \<open>$\<close> is the end of the string.

  \<open>FILE_LIKE_RE\<close> is \<open>(^|/)[^/]+\.[A-Za-z0-9]{1,6}$\<close>. \<open>file_like_here t\<close> is the part
  after \<open>(^|/)\<close> matched against all of \<open>t\<close>: the extension is what follows the last dot.
\<close>

definition file_like_here :: "string \<Rightarrow> bool" where
  "file_like_here t =
     (let ext = takeWhile (\<lambda>c. c \<noteq> CHR ''.'') (rev t);
          front = drop (Suc (length ext)) (rev t)
      in length ext < length t \<and> 1 \<le> length ext \<and> length ext \<le> 6 \<and> list_all is_alnum ext
         \<and> front \<noteq> [] \<and> CHR ''/'' \<notin> set front)"

fun file_like_after_slash :: "string \<Rightarrow> bool" where
  "file_like_after_slash [] = False"
| "file_like_after_slash (c # cs) =
     ((c = CHR ''/'' \<and> file_like_here cs) \<or> file_like_after_slash cs)"

definition FILE_LIKE_RE_search :: "string \<Rightarrow> bool" where
  "FILE_LIKE_RE_search t = (file_like_here t \<or> file_like_after_slash t)"

text \<open>\<open>VERSION_RE.match(t)\<close> with \<open>^v\d+(\.\d+)*$\<close>, ignoring case.\<close>

definition VERSION_RE_match :: "string \<Rightarrow> bool" where
  "VERSION_RE_match t =
     (case t of
        [] \<Rightarrow> False
      | c # cs \<Rightarrow> (c = CHR ''v'' \<or> c = CHR ''V'')
                 \<and> list_all (\<lambda>g. g \<noteq> [] \<and> list_all is_digit g) (split_on CHR ''.'' cs))"

text \<open>
  \<open>LFI_INDICATORS.search(s)\<close> with \<open>(^|/)\.\.?($|/)\<close>. \<open>lfi_here t\<close> is
  \<open>\.\.?($|/)\<close> matched at the start of \<open>t\<close>.
\<close>

definition lfi_here :: "string \<Rightarrow> bool" where
  "lfi_here t =
     (case t of
        [] \<Rightarrow> False
      | c # cs \<Rightarrow> c = CHR ''.'' \<and>
          (case cs of
             [] \<Rightarrow> True
           | d # ds \<Rightarrow> d = CHR ''/'' \<or> (d = CHR ''.'' \<and> (case ds of [] \<Rightarrow> True | e # _ \<Rightarrow> e = CHR ''/''))))"

fun lfi_after_slash :: "string \<Rightarrow> bool" where
  "lfi_after_slash [] = False"
| "lfi_after_slash (c # cs) = ((c = CHR ''/'' \<and> lfi_here cs) \<or> lfi_after_slash cs)"

definition LFI_INDICATORS_search :: "string \<Rightarrow> bool" where
  "LFI_INDICATORS_search s = (lfi_here s \<or> lfi_after_slash s)"

text \<open>
  \<open>DOT_EXT_RE.sub('', core)\<close> with \<open>(?:\.[A-Za-z0-9\-]{1,63})+$\<close>. \<open>dot_ext_groups t\<close>:
  all of \<open>t\<close> is one or more groups, each a dot and 1 to 63 letters, digits or hyphens.
  The substitution removes the leftmost match, which reaches the end.
\<close>

definition is_dot_ext_char :: "char \<Rightarrow> bool" where
  "is_dot_ext_char c = (is_alnum c \<or> c = CHR ''-'')"

definition dot_ext_groups :: "string \<Rightarrow> bool" where
  "dot_ext_groups t =
     (case t of
        [] \<Rightarrow> False
      | c # cs \<Rightarrow> c = CHR ''.''
          \<and> list_all (\<lambda>g. 1 \<le> length g \<and> length g \<le> 63 \<and> list_all is_dot_ext_char g)
               (split_on CHR ''.'' cs))"

fun DOT_EXT_sub :: "string \<Rightarrow> string" where
  "DOT_EXT_sub [] = []"
| "DOT_EXT_sub (c # cs) = (if dot_ext_groups (c # cs) then [] else c # DOT_EXT_sub cs)"

subsection \<open>Helpers\<close>

text \<open>
  \<open>normalize_and_map\<close>: NFKC, then \<open>translate(HOMOGLYPH_MAP)\<close>, then the characters whose
  category starts with \<open>C\<close> are removed. The keys of \<open>HOMOGLYPH_MAP\<close> are Cyrillic letters
  (U+0406..U+0456), none of them in this alphabet, so \<open>translate\<close> changes nothing here.
  The categories starting with \<open>C\<close> in 0..255 are \<open>Cc\<close> (0..31 and 127..159) and \<open>Cf\<close>
  (U+00AD).
\<close>

definition translate_HOMOGLYPH_MAP :: "string \<Rightarrow> string" where
  "translate_HOMOGLYPH_MAP s = s"

definition category_C :: "char \<Rightarrow> bool" where
  "category_C c = (let n = (of_char c :: nat) in n < 32 \<or> (127 \<le> n \<and> n \<le> 159) \<or> n = 173)"

text \<open>NFKC on ASCII text, for the concrete runs below.\<close>

definition nfkc_ascii :: "string \<Rightarrow> string" where
  "nfkc_ascii s = s"

definition normalize_and_map :: "(string \<Rightarrow> string) \<Rightarrow> string \<Rightarrow> string" where
  "normalize_and_map nfkc s =
     filter (\<lambda>ch. \<not> category_C ch) (translate_HOMOGLYPH_MAP (nfkc s))"

subsection \<open>Options and the output set\<close>

text \<open>The command line: \<open>--verbose\<close> only writes to the error stream and is left out.\<close>

record options =
  iis :: bool
  maxlen :: int
  add_trailing_variant :: bool
  sorted_output :: bool
  strip_dot_ext :: bool
  drop_leading_dot :: bool

definition default_options :: options where
  "default_options = \<lparr> iis = False, maxlen = 200, add_trailing_variant = False,
     sorted_output = False, strip_dot_ext = True, drop_leading_dot = False \<rparr>"

record output_set =
  seen :: "string set"
  out_order :: "string list"

definition empty_output :: output_set where
  "empty_output = \<lparr> seen = {}, out_order = [] \<rparr>"

text \<open>\<open>if v not in seen: seen.add(v); out_order.append(v)\<close>\<close>

definition add_entry :: "string \<Rightarrow> output_set \<Rightarrow> output_set" where
  "add_entry v st =
     (if v \<notin> seen st then st\<lparr> seen := insert v (seen st), out_order := out_order st @ [v] \<rparr>
      else st)"

subsection \<open>The loop body\<close>

text \<open>
  The script reads the file line by line and keeps \<open>seen\<close> and \<open>out_order\<close> across the
  lines. \<open>main_step\<close> is the loop body, \<open>main_loop\<close> the loop, \<open>main_output\<close> what is
  written at the end.

  Lines 137 to 171: from the raw line to the candidate, \<open>None\<close> for each \<open>continue\<close>.\<close>

definition candidate_of_line :: "(string \<Rightarrow> string) \<Rightarrow> string \<Rightarrow> string option" where
  "candidate_of_line nfkc raw =
     (let line = rstrip_newlines raw in
      if line = [] then None
      else if COMMENT_RE_match (lstrip line) then None
      else
        let s = strip line;
            s = URL_SCHEME_HOST_sub s;
            s = QUERY_FRAGMENT_sub s;
            s = strip s
        in if s = [] then None
           else
             let s = dropWhile (\<lambda>c. c = CHR ''/'') s;
                 s = rev (dropWhile (\<lambda>c. c = CHR ''/'') (rev s))
             in if s = [] then None
                else
                  let s = collapse_slashes s;
                      s = normalize_and_map nfkc s
                  in if s = [] then None else Some s)"

text \<open>Lines 202 to 210: one variant of a dot-leading entry.\<close>

definition add_dot_variant :: "options \<Rightarrow> string \<Rightarrow> output_set \<Rightarrow> output_set" where
  "add_dot_variant opts s_proc st =
     (let encoded = percent_encode_keep_slash s_proc in
      if int (length encoded) > maxlen opts then st
      else add_entry encoded st)"

text \<open>Lines 174 to 254: the dot-leading entries, then the others.\<close>

definition process_candidate :: "options \<Rightarrow> string \<Rightarrow> output_set \<Rightarrow> output_set" where
  "process_candidate opts s st =
     (if take 1 s = ''.'' then
        (let core = drop 1 s in
         if core = [] then st
         else
           let core = (if \<not> iis opts then lower core else core);
               core = (if strip_dot_ext opts then DOT_EXT_sub core else core)
           in if core = [] then st
              else
                let variants = (if \<not> drop_leading_dot opts then [CHR ''.'' # core] else [])
                               @ [core]
                in fold (add_dot_variant opts) variants st)
      else if contains ''..'' s \<or> contains ''./'' s \<or> LFI_INDICATORS_search s then st
      else
        let s = (if \<not> iis opts then lower s else s);
            last_seg = last (split_on CHR ''/'' s)
        in if FILE_LIKE_RE_search (CHR ''/'' # last_seg) \<and> \<not> VERSION_RE_match last_seg then st
           else
             let encoded = percent_encode_keep_slash s in
             if int (length encoded) > maxlen opts then st
             else
               let variants = [encoded] @
                     (if add_trailing_variant opts \<and> take 1 encoded \<noteq> ''.''
                         \<and> (encoded = [] \<or> last encoded \<noteq> CHR ''/'')
                      then [encoded @ ''/''] else [])
               in fold add_entry variants st)"

definition main_step :: "options \<Rightarrow> (string \<Rightarrow> string) \<Rightarrow> string \<Rightarrow> output_set \<Rightarrow> output_set" where
  "main_step opts nfkc raw st =
     (case candidate_of_line nfkc raw of
        None \<Rightarrow> st
      | Some s \<Rightarrow> process_candidate opts s st)"

definition main_loop :: "options \<Rightarrow> (string \<Rightarrow> string) \<Rightarrow> string list \<Rightarrow> output_set" where
  "main_loop opts nfkc raws = fold (main_step opts nfkc) raws empty_output"

text \<open>The final output: \<open>sorted(out_order)\<close> compares strings by code point.\<close>

definition final_output :: "options \<Rightarrow> output_set \<Rightarrow> string list" where
  "final_output opts st = (if sorted_output opts then sort (out_order st) else out_order st)"

definition main_output :: "options \<Rightarrow> (string \<Rightarrow> string) \<Rightarrow> string list \<Rightarrow> string list" where
  "main_output opts nfkc raws = final_output opts (main_loop opts nfkc raws)"

section \<open>clean\_api\_wordlist.py\<close>

text \<open>
  \<open>strip_comment\<close> starts with \<open>line.lstrip(BOM)\<close>. \<open>COMMENT_RE\<close> is \<open>^\s*(#|//)\<close> here and is
  matched against the line without its marks. The loop over \<open>' #'\<close> and \<open>' //'\<close> returns
  at the first of the two that \<open>find\<close> locates.
\<close>

definition COMMENT_RE_api_match :: "string \<Rightarrow> bool" where
  "COMMENT_RE_api_match t =
     (let r = dropWhile isspace t in take 1 r = ''#'' \<or> take 2 r = ''//'')"

definition strip_comment_api :: "raw_line \<Rightarrow> string" where
  "strip_comment_api raw =
     (let line = lstrip_BOM raw in
      if COMMENT_RE_api_match line then []
      else (case find_str '' #'' line of
              Some idx \<Rightarrow> take idx line
            | None \<Rightarrow>
                (case find_str '' //'' line of
                   Some idx \<Rightarrow> take idx line
                 | None \<Rightarrow> line)))"

text \<open>
  \<open>remove_trailing_slash\<close>: in \<open>re.sub(r'/+$', '', s)\<close> the \<open>$\<close> matches at the end and also
  before a line feed that ends the text, so the slashes in front of a final line feed
  are removed as well.
\<close>

definition remove_trailing_slash :: "string \<Rightarrow> string" where
  "remove_trailing_slash s =
     (if s = ''/'' then s
      else if s \<noteq> [] \<and> last s = LF
      then rev (dropWhile (\<lambda>c. c = CHR ''/'') (rev (butlast s))) @ [LF]
      else rev (dropWhile (\<lambda>c. c = CHR ''/'') (rev s)))"

record api_options =
  leading_slash :: bool
  no_leading_slash :: bool
  lower_api :: bool
  percent :: bool
  add_trailing_variant_api :: bool
  strip_comments :: bool
  collapse_slashes_api :: bool

text \<open>The options when no flag is given.\<close>

definition api_defaults :: api_options where
  "api_defaults = \<lparr> leading_slash = False, no_leading_slash = False, lower_api = False,
     percent = False, add_trailing_variant_api = False, strip_comments = True,
     collapse_slashes_api = True \<rparr>"

text \<open>
  The body of the loop of \<open>process_lines\<close>; \<open>seen\<close> is a dictionary used as a set.
  \<open>process_lines_rest\<close> is the body from the trimming of line 86 on, for a line of the
  alphabet.
\<close>

definition process_lines_rest ::
  "api_options \<Rightarrow> (string \<Rightarrow> string) \<Rightarrow> string \<Rightarrow> output_set \<Rightarrow> output_set" where
  "process_lines_rest opts nfkc line st =
     (let line = strip line in
      if line = [] then st
      else
        let line = nfkc line;
            line = (if collapse_slashes_api opts then collapse_slashes line else line);
            line = remove_trailing_slash line;
            line = (if leading_slash opts then
                      (if take 1 line \<noteq> ''/'' then CHR ''/'' # line
                       else CHR ''/'' # dropWhile (\<lambda>c. c = CHR ''/'') line)
                    else if no_leading_slash opts then dropWhile (\<lambda>c. c = CHR ''/'') line
                    else line);
            line = (if lower_api opts then lower line else line);
            line = (if percent opts then percent_encode_keep_slash line else line);
            line = strip line
        in if line = [] then st
           else if line \<in> seen st then st
           else
             let st = st\<lparr> seen := insert line (seen st), out_order := out_order st @ [line] \<rparr>
             in if add_trailing_variant_api opts \<and> last line \<noteq> CHR ''/''
                then add_entry (line @ ''/'') st
                else st)"

text \<open>
  Lines 77 to 84, then the rest. \<open>rstrip('\r\n')\<close> leaves leading marks in place, so a line
  of marks only is not empty. With comment stripping on, \<open>strip_comment\<close> removes the marks
  and the rest works on text of the alphabet. With comment stripping off the marks are
  never removed and stay in the entry, which is then text outside the alphabet: for such
  a line the step has no value in this model (\<open>None\<close>).
\<close>

definition process_lines_step ::
  "api_options \<Rightarrow> (string \<Rightarrow> string) \<Rightarrow> raw_line \<Rightarrow> output_set \<Rightarrow> output_set option" where
  "process_lines_step opts nfkc raw st =
     (let k = bom_count raw;
          line = rstrip_newlines (text_of raw)
      in if k = 0 \<and> line = [] then Some st
         else if strip_comments opts then
           (let line = strip_comment_api (Line k line) in
            if line = [] then Some st
            else Some (process_lines_rest opts nfkc line st))
         else if k = 0 then Some (process_lines_rest opts nfkc line st)
         else None)"

fun process_lines_loop ::
  "api_options \<Rightarrow> (string \<Rightarrow> string) \<Rightarrow> raw_line list \<Rightarrow> output_set \<Rightarrow> output_set option" where
  "process_lines_loop opts nfkc [] st = Some st"
| "process_lines_loop opts nfkc (raw # raws) st =
     (case process_lines_step opts nfkc raw st of
        None \<Rightarrow> None
      | Some st' \<Rightarrow> process_lines_loop opts nfkc raws st')"

definition process_lines ::
  "api_options \<Rightarrow> (string \<Rightarrow> string) \<Rightarrow> raw_line list \<Rightarrow> string list option" where
  "process_lines opts nfkc raws =
     map_option out_order (process_lines_loop opts nfkc raws empty_output)"

section \<open>convert\_files\_into\_directories.py\<close>

definition DEFAULT_EXTS :: "string list" where
  "DEFAULT_EXTS =
     [''tar.gz'', ''tar.bz2'', ''tar.xz'', ''tar'', ''tgz'', ''tbz2'',
      ''zip'', ''rar'', ''7z'', ''gz'', ''bz2'', ''xz'',
      ''sql'', ''sql.gz'', ''db'', ''bak'', ''old'', ''orig'', ''save'',
      ''php'', ''php5'', ''phtml'', ''asp'', ''aspx'', ''jsp'',
      ''html'', ''htm'', ''shtml'', ''xhtml'',
      ''js'', ''css'', ''json'', ''xml'', ''yml'', ''yaml'',
      ''txt'', ''md'', ''csv'', ''log'',
      ''conf'', ''cfg'', ''ini'', ''env'',
      ''pem'', ''key'', ''crt'', ''cer'',
      ''exe'', ''bin'', ''dll'',
      ''img'', ''iso'',
      ''pdf'', ''doc'', ''docx'', ''xls'', ''xlsx'', ''ppt'', ''pptx'']"

text \<open>
  \<open>build_ext_regex\<close>: the pattern \<open>(?:\.(?:alt))+$\<close>, ignoring case, is kept as the list of
  its alternatives in the order of the pattern: the distinct extensions sorted by
  descending length (\<open>sorted\<close> is stable; the order in which a Python set yields equal-length
  members is not fixed, here it is that of the list). Every alternative is escaped, so
  it matches itself.
\<close>

definition build_ext_regex :: "string list \<Rightarrow> string list" where
  "build_ext_regex ext_list = sort_key (\<lambda>s. - int (length s)) (remdups ext_list)"

text \<open>
  The pattern \<open>(?:\.(?:alt))+$\<close> matched at the start of a text, as the backtracking
  matcher of \<open>re\<close> does it. \<open>group_from alts todo t\<close>: a dot has been read, \<open>t\<close> follows it,
  and the alternatives \<open>todo\<close> are still to be tried for this group. After an alternative
  has matched, a further group is tried first (the repetition is greedy); if none leads
  to a match, \<open>$\<close> is tried here, and only then the next alternative. \<open>$\<close> matches at the
  end of the text and before a line feed that ends it. The result is what the match
  leaves of the text: nothing, or that final line feed. On this alphabet two characters
  match ignoring case when their lower-case forms are equal.
\<close>

function group_from :: "string list \<Rightarrow> string list \<Rightarrow> string \<Rightarrow> string option" where
  "group_from alts [] t = None"
| "group_from alts (e # es) t =
     (if length e \<le> length t \<and> lower (take (length e) t) = lower e then
        (case (case drop (length e) t of
                 [] \<Rightarrow> None
               | c # cs \<Rightarrow> if c = CHR ''.'' then group_from alts alts cs else None) of
           Some r \<Rightarrow> Some r
         | None \<Rightarrow>
             if drop (length e) t = [] \<or> drop (length e) t = [LF]
             then Some (drop (length e) t)
             else group_from alts es t)
      else group_from alts es t)"
  by pat_completeness auto
termination
proof (relation "measures [\<lambda>(alts, todo, t). length t, \<lambda>(alts, todo, t). length todo]")
  fix alts :: "string list" and e :: string and es :: "string list" and t :: string
    and c :: char and cs :: string
  assume "drop (length e) t = c # cs"
  then have "length (drop (length e) t) = Suc (length cs)" by simp
  then have "length cs < length t" by simp
  then show "((alts, alts, cs), (alts, e # es, t))
      \<in> measures [\<lambda>(alts, todo, t). length t, \<lambda>(alts, todo, t). length todo]"
    by simp
qed auto

definition ext_re_match :: "string list \<Rightarrow> string \<Rightarrow> string option" where
  "ext_re_match alts t =
     (case t of
        [] \<Rightarrow> None
      | c # cs \<Rightarrow> if c = CHR ''.'' then group_from alts alts cs else None)"

text \<open>
  \<open>ext_re.sub("", stem)\<close>: the leftmost position at which the pattern matches; the match
  is removed and what it leaves, if anything, is a final line feed, in which no further
  match can start.
\<close>

fun ext_re_sub :: "string list \<Rightarrow> string \<Rightarrow> string" where
  "ext_re_sub alts [] = []"
| "ext_re_sub alts (c # cs) =
     (case ext_re_match alts (c # cs) of
        Some r \<Rightarrow> r
      | None \<Rightarrow> c # ext_re_sub alts cs)"

text \<open>
  The converter's own \<open>strip_comment\<close>: \<open>lstrip("\ufeff")\<close> first, then the comment test on
  the stripped line with \<open>startswith\<close>, and the inline cut on the line without its marks.
\<close>

definition strip_comment :: "raw_line \<Rightarrow> string" where
  "strip_comment raw =
     (let line = lstrip_BOM raw;
          stripped = strip line
      in if take 1 stripped = ''#'' then []
         else if take 2 stripped = ''//'' then []
         else (case find_str '' #'' line of
                 Some idx \<Rightarrow> take idx line
               | None \<Rightarrow>
                   (case find_str '' //'' line of
                      Some idx \<Rightarrow> take idx line
                    | None \<Rightarrow> line)))"

text \<open>
  \<open>PurePosixPath\<close>: the root is \<open>//\<close> for exactly two leading slashes and \<open>/\<close> for one
  or for three and more; the parts are the segments that are neither empty nor \<open>.\<close>.
\<close>

definition posix_root :: "string \<Rightarrow> string" where
  "posix_root s =
     (if take 2 s = ''//'' \<and> take 3 s \<noteq> ''///'' then ''//''
      else if take 1 s = ''/'' then ''/'' else [])"

definition posix_parts :: "string \<Rightarrow> string list" where
  "posix_parts s = filter (\<lambda>seg. seg \<noteq> [] \<and> seg \<noteq> ''.'') (split_on CHR ''/'' s)"

fun join_slash :: "string list \<Rightarrow> string" where
  "join_slash [] = []"
| "join_slash [x] = x"
| "join_slash (x # y # ys) = x @ ''/'' @ join_slash (y # ys)"

definition posix_str :: "string \<Rightarrow> string list \<Rightarrow> string" where
  "posix_str root parts = (if root = [] \<and> parts = [] then ''.'' else root @ join_slash parts)"

definition posix_name :: "string \<Rightarrow> string" where
  "posix_name s = (if posix_parts s = [] then [] else last (posix_parts s))"

definition posix_parent :: "string \<Rightarrow> string" where
  "posix_parent s = posix_str (posix_root s) (butlast (posix_parts s))"

definition remove_extensions :: "string \<Rightarrow> string list \<Rightarrow> string" where
  "remove_extensions name ext_re =
     (if name = [] then name
      else
        let stem = posix_name name;
            new_stem = ext_re_sub ext_re stem
        in if new_stem = stem then posix_str (posix_root name) (posix_parts name)
           else
             let parent = posix_parent name in
             if parent = ''.'' \<or> parent = [] then new_stem
             else join_slash [parent, new_stem])"

definition normalize :: "string \<Rightarrow> bool \<Rightarrow> string" where
  "normalize line lower_flag =
     (let s = strip line;
          s = collapse_slashes s
      in if lower_flag then lower s else s)"

record conv_options =
  basename_only :: bool
  add_trailing_slash :: bool
  lower_flag :: bool
  ext_list :: "string list option"
  keep_markers :: bool

definition conv_defaults :: conv_options where
  "conv_defaults = \<lparr> basename_only = False, add_trailing_slash = False, lower_flag = False,
     ext_list = None, keep_markers = False \<rparr>"

text \<open>
  The body of the loop of \<open>process_file\<close>. \<open>seen\<close> is an ordered dictionary: the list of
  its keys in insertion order. \<open>strip_comment\<close> is the first thing applied to a line, so
  from there on the line is text of the alphabet.
\<close>

definition process_file_step :: "conv_options \<Rightarrow> raw_line \<Rightarrow> string list \<Rightarrow> string list" where
  "process_file_step opts raw seen_keys =
     (let ext_re = build_ext_regex (case ext_list opts of
                                      None \<Rightarrow> DEFAULT_EXTS
                                    | Some l \<Rightarrow> if l = [] then DEFAULT_EXTS else l);
          line = strip_comment raw
      in if line = [] then seen_keys
         else
           let line = strip line in
           if line = [] then seen_keys
           else if \<not> keep_markers opts \<and> take 1 line \<in> {''!'', ''@'', ''#'', ''$'', ''%''}
           then seen_keys
           else
             let line = normalize line (lower_flag opts);
                 candidate = (if basename_only opts then ext_re_sub ext_re (posix_name line)
                              else remove_extensions line ext_re);
                 candidate = strip candidate
             in if candidate = [] then seen_keys
                else
                  let candidate = (if take 2 candidate = ''./''
                                   then dropWhile (\<lambda>c. c = CHR ''/'') (drop 1 candidate)
                                   else candidate);
                      candidate = (if add_trailing_slash opts
                                      \<and> (candidate = [] \<or> last candidate \<noteq> CHR ''/'')
                                   then candidate @ ''/'' else candidate)
                  in if candidate \<notin> set seen_keys then seen_keys @ [candidate] else seen_keys)"

definition process_file :: "conv_options \<Rightarrow> raw_line list \<Rightarrow> string list" where
  "process_file opts raws = fold (process_file_step opts) raws []"

section \<open>Notions used in the statements\<close>

text \<open>The output set is consistent: \<open>seen\<close> holds the entries of \<open>out_order\<close>, each once.\<close>

definition output_inv :: "output_set \<Rightarrow> bool" where
  "output_inv st = (seen st = set (out_order st) \<and> distinct (out_order st))"

text \<open>A path segment equal to \<open>.\<close> or \<open>..\<close>, and the three traversal indicators.\<close>

definition dot_segment :: "string \<Rightarrow> bool" where
  "dot_segment s = list_ex (\<lambda>seg. seg = ''.'' \<or> seg = ''..'') (split_on CHR ''/'' s)"

definition traversal_indicator :: "string \<Rightarrow> bool" where
  "traversal_indicator s = (contains ''..'' s \<or> contains ''./'' s \<or> dot_segment s)"

text \<open>
  A segment that ends in a dot followed by 1 to 6 letters or digits, and a file-like
  segment: one that has at least one character before that dot.
\<close>

definition short_ext_at :: "string \<Rightarrow> nat \<Rightarrow> bool" where
  "short_ext_at seg k =
     (let ext = drop (Suc k) seg
      in k < length seg \<and> seg ! k = CHR ''.'' \<and> 1 \<le> length ext \<and> length ext \<le> 6
         \<and> list_all is_alnum ext)"

definition ends_in_short_ext :: "string \<Rightarrow> bool" where
  "ends_in_short_ext seg = list_ex (short_ext_at seg) [0..<length seg]"

definition file_like_segment :: "string \<Rightarrow> bool" where
  "file_like_segment seg = list_ex (short_ext_at seg) [1..<length seg]"

text \<open>The entries that pass the length gate.\<close>

definition length_gate :: "options \<Rightarrow> string list \<Rightarrow> string list" where
  "length_gate opts es = filter (\<lambda>e. int (length e) \<le> maxlen opts) es"

text \<open>
  What the dot branch offers to the output set, by the dot-specific rules alone: the core
  after the leading dot, lower-cased unless case is preserved, its trailing extension
  groups stripped when the toggle is on; nothing for an empty core; otherwise the
  dot-prefixed form unless suppressed, then the bare core, each encoded and
  length-checked.
\<close>

definition dot_branch_entries :: "options \<Rightarrow> string \<Rightarrow> string list" where
  "dot_branch_entries opts s =
     (let core = (if iis opts then tl s else lower (tl s));
          core = (if strip_dot_ext opts then DOT_EXT_sub core else core)
      in if core = [] then []
         else length_gate opts (map percent_encode_keep_slash
                ((if drop_leading_dot opts then [] else [CHR ''.'' # core]) @ [core])))"

text \<open>
  What the other branch offers: nothing for a traversal indicator or a file-like last
  segment that is not a version folder; otherwise the encoded candidate if it passes the
  length gate, and then its trailing-slash variant when that mode is on.
\<close>

definition plain_branch_entries :: "options \<Rightarrow> string \<Rightarrow> string list" where
  "plain_branch_entries opts s =
     (let s' = (if iis opts then s else lower s);
          seg = last (split_on CHR ''/'' s');
          e = percent_encode_keep_slash s'
      in if traversal_indicator s then []
         else if file_like_segment seg \<and> \<not> VERSION_RE_match seg then []
         else if maxlen opts < int (length e) then []
         else e # (if add_trailing_variant opts \<and> take 1 e \<noteq> ''.''
                      \<and> (e = [] \<or> last e \<noteq> CHR ''/'')
                   then [e @ ''/''] else []))"

text \<open>The first character of a line that is not white space, if any.\<close>

definition first_nonspace :: "string \<Rightarrow> char option" where
  "first_nonspace s = (case dropWhile isspace s of [] \<Rightarrow> None | c # _ \<Rightarrow> Some c)"

text \<open>Text of printable ASCII characters (32 to 126).\<close>

definition printable :: "string \<Rightarrow> bool" where
  "printable s = list_all (\<lambda>c. 32 \<le> (of_char c :: nat) \<and> (of_char c :: nat) \<le> 126) s"

text \<open>Every entry of the output set is within the configured maximum length.\<close>

definition within_maxlen :: "options \<Rightarrow> output_set \<Rightarrow> bool" where
  "within_maxlen opts st = list_all (\<lambda>e. int (length e) \<le> maxlen opts) (out_order st)"

text \<open>What one line offers to the output set.\<close>

definition line_entries :: "options \<Rightarrow> (string \<Rightarrow> string) \<Rightarrow> string \<Rightarrow> string list" where
  "line_entries opts nfkc raw =
     (case candidate_of_line nfkc raw of
        None \<Rightarrow> []
      | Some s \<Rightarrow> if take 1 s = ''.'' then dot_branch_entries opts s
                  else plain_branch_entries opts s)"

text \<open>
  An entry that the default pipeline leaves as it is: unreserved characters and slashes
  only, no slash at either end and no double slash, no leading dot, no traversal
  indicator, no upper-case letter, a last segment that is not file-like or is a version
  folder, and at most 200 characters.
\<close>

definition stable_entry :: "string \<Rightarrow> bool" where
  "stable_entry e =
     (e \<noteq> [] \<and> list_all is_safe e \<and> take 1 e \<noteq> ''/'' \<and> last e \<noteq> CHR ''/''
      \<and> \<not> contains ''//'' e \<and> take 1 e \<noteq> ''.'' \<and> \<not> traversal_indicator e \<and> lower e = e
      \<and> \<not> (file_like_segment (last (split_on CHR ''/'' e))
             \<and> \<not> VERSION_RE_match (last (split_on CHR ''/'' e)))
      \<and> length e \<le> 200)"

text \<open>
  A run of extension groups of a table: one or more groups, each a dot followed by an
  extension of the table, ignoring case. What \<open>$\<close> accepts after it: the end of the text
  or a final line feed.
\<close>

definition ext_run :: "string list \<Rightarrow> string \<Rightarrow> bool" where
  "ext_run exts g =
     (\<exists>es. es \<noteq> [] \<and> g = concat (map (\<lambda>e'. CHR ''.'' # e') es)
           \<and> (\<forall>e'\<in>set es. \<exists>e\<in>set exts. lower e' = lower e))"

definition dollar_tail :: "string \<Rightarrow> bool" where
  "dollar_tail r = (r = [] \<or> r = [LF])"

section \<open>The output set and the two branches\<close>

lemma add_entry_inv: "output_inv st \<Longrightarrow> output_inv (add_entry v st)"
  by (simp add: output_inv_def add_entry_def)

lemma add_entry_prefix: "prefix (out_order st) (out_order (add_entry v st))"
  by (simp add: add_entry_def)

lemma fold_add_entry_inv: "output_inv st \<Longrightarrow> output_inv (fold add_entry vs st)"
  by (induction vs arbitrary: st) (simp_all add: add_entry_inv)

lemma fold_add_entry_prefix: "prefix (out_order st) (out_order (fold add_entry vs st))"
proof (induction vs arbitrary: st)
  case Nil
  show ?case by simp
next
  case (Cons v vs)
  have "prefix (out_order st) (out_order (add_entry v st))" by (rule add_entry_prefix)
  also have "prefix \<dots> (out_order (fold add_entry vs (add_entry v st)))" by (rule Cons.IH)
  finally show ?case by simp
qed

lemma fold_add_dot_variant:
  "fold (add_dot_variant opts) vs st
     = fold add_entry (length_gate opts (map percent_encode_keep_slash vs)) st"
  by (induction vs arbitrary: st) (simp_all add: add_dot_variant_def length_gate_def Let_def)

lemma take1_dot: "(take 1 s = ''.'') = (\<exists>rest. s = CHR ''.'' # rest)"
  by (cases s) auto

lemma process_candidate_dot:
  assumes "take 1 s = ''.''"
  shows "process_candidate opts s st = fold add_entry (dot_branch_entries opts s) st"
proof -
  obtain rest where s: "s = CHR ''.'' # rest" using assms by (cases s) auto
  have e: "lower [] = []" "DOT_EXT_sub [] = []" by (simp_all add: lower_def)
  show ?thesis
    unfolding process_candidate_def dot_branch_entries_def fold_add_dot_variant s
    by (cases "rest = []") (auto simp: Let_def length_gate_def e)
qed

lemma split_on_not_Nil: "split_on sep s \<noteq> []"
  by (induction s) (auto split: list.splits)

lemma hd_split_on: "hd (split_on sep s) = takeWhile (\<lambda>c. c \<noteq> sep) s"
  by (induction s) (auto split: list.splits simp: split_on_not_Nil)

lemma tl_split_on_Cons:
  "tl (split_on sep (c # cs)) = (if c = sep then split_on sep cs else tl (split_on sep cs))"
  by (auto split: list.splits simp: split_on_not_Nil)

lemma lfi_here_iff: "lfi_here t = (takeWhile (\<lambda>c. c \<noteq> CHR ''/'') t \<in> {''.'', ''..''})"
  by (auto simp: lfi_here_def split: list.splits if_splits)

lemma set_split_on_hd_tl:
  "(\<exists>seg\<in>set (split_on sep s). P seg)
     = (P (hd (split_on sep s)) \<or> (\<exists>seg\<in>set (tl (split_on sep s)). P seg))"
  using split_on_not_Nil [of sep s] by (cases "split_on sep s") auto

lemma lfi_after_slash_iff:
  "lfi_after_slash s = (\<exists>seg\<in>set (tl (split_on CHR ''/'' s)). seg = ''.'' \<or> seg = ''..'')"
proof (induction s)
  case Nil
  show ?case by simp
next
  case (Cons c cs)
  show ?case
  proof (cases "c = CHR ''/''")
    case True
    then show ?thesis
      using Cons set_split_on_hd_tl [of "CHR ''/''" cs "\<lambda>seg. seg = ''.'' \<or> seg = ''..''"]
      by (simp only: lfi_after_slash.simps tl_split_on_Cons lfi_here_iff hd_split_on) auto
  next
    case False
    then show ?thesis using Cons by (simp only: lfi_after_slash.simps tl_split_on_Cons) simp
  qed
qed

lemma LFI_INDICATORS_search_iff: "LFI_INDICATORS_search s = dot_segment s"
  unfolding LFI_INDICATORS_search_def dot_segment_def list_ex_iff
  using set_split_on_hd_tl [of "CHR ''/''" s "\<lambda>seg. seg = ''.'' \<or> seg = ''..''"]
  by (simp add: lfi_after_slash_iff lfi_here_iff hd_split_on)

lemma is_alnum_not_dot: "is_alnum c \<Longrightarrow> c \<noteq> CHR ''.''"
  by (auto simp: is_alnum_def is_letter_def is_digit_def Let_def)

lemma file_like_here_iff:
  "file_like_here t = (\<exists>a e. t = a @ CHR ''.'' # e \<and> a \<noteq> [] \<and> CHR ''/'' \<notin> set a
       \<and> 1 \<le> length e \<and> length e \<le> 6 \<and> list_all is_alnum e)"
proof
  assume h: "file_like_here t"
  define ext where "ext = takeWhile (\<lambda>c. c \<noteq> CHR ''.'') (rev t)"
  define front where "front = drop (Suc (length ext)) (rev t)"
  from h have p: "length ext < length t" "1 \<le> length ext" "length ext \<le> 6" "list_all is_alnum ext"
    "front \<noteq> []" "CHR ''/'' \<notin> set front"
    by (simp_all add: file_like_here_def ext_def front_def Let_def)
  have "rev t = ext @ dropWhile (\<lambda>c. c \<noteq> CHR ''.'') (rev t)" by (simp add: ext_def)
  moreover have ne: "dropWhile (\<lambda>c. c \<noteq> CHR ''.'') (rev t) \<noteq> []"
  proof
    assume "dropWhile (\<lambda>c. c \<noteq> CHR ''.'') (rev t) = []"
    then have "ext = rev t" unfolding ext_def by (simp add: takeWhile_eq_all_conv)
    then have "length ext = length t" by simp
    with p(1) show False by simp
  qed
  then obtain d r where r: "dropWhile (\<lambda>c. c \<noteq> CHR ''.'') (rev t) = d # r"
    by (cases "dropWhile (\<lambda>c. c \<noteq> CHR ''.'') (rev t)") auto
  have "d = CHR ''.''" using hd_dropWhile [OF ne] r by simp
  ultimately have rt: "rev t = ext @ CHR ''.'' # r" using r by simp
  then have fr: "front = r" by (simp add: front_def)
  have "t = rev (rev t)" by simp
  also have "\<dots> = rev r @ CHR ''.'' # rev ext" unfolding rt by simp
  finally have "t = rev r @ CHR ''.'' # rev ext" .
  then show "\<exists>a e. t = a @ CHR ''.'' # e \<and> a \<noteq> [] \<and> CHR ''/'' \<notin> set a
       \<and> 1 \<le> length e \<and> length e \<le> 6 \<and> list_all is_alnum e"
    using p fr by (intro exI [of _ "rev r"] exI [of _ "rev ext"]) (simp add: list_all_iff)
next
  assume "\<exists>a e. t = a @ CHR ''.'' # e \<and> a \<noteq> [] \<and> CHR ''/'' \<notin> set a
       \<and> 1 \<le> length e \<and> length e \<le> 6 \<and> list_all is_alnum e"
  then obtain a e where t: "t = a @ CHR ''.'' # e" and p: "a \<noteq> []" "CHR ''/'' \<notin> set a"
    "1 \<le> length e" "length e \<le> 6" "list_all is_alnum e" by blast
  have nd: "\<forall>c\<in>set (rev e). c \<noteq> CHR ''.''" using p(5) by (auto simp: list_all_iff dest: is_alnum_not_dot)
  have rt: "rev t = rev e @ CHR ''.'' # rev a" by (simp add: t)
  have tw: "takeWhile (\<lambda>c. c \<noteq> CHR ''.'') (rev t) = rev e"
    unfolding rt using nd by (simp add: takeWhile_tail takeWhile_eq_all_conv)
  show "file_like_here t"
    unfolding file_like_here_def Let_def tw using p by (simp add: rt list_all_iff) (simp add: t)
qed

lemma short_ext_at_iff:
  "short_ext_at seg k = (\<exists>e. seg = take k seg @ CHR ''.'' # e
       \<and> 1 \<le> length e \<and> length e \<le> 6 \<and> list_all is_alnum e)"
proof
  assume "short_ext_at seg k"
  then have p: "k < length seg" "seg ! k = CHR ''.''" "1 \<le> length (drop (Suc k) seg)"
     "length (drop (Suc k) seg) \<le> 6" "list_all is_alnum (drop (Suc k) seg)"
    by (simp_all add: short_ext_at_def Let_def)
  have "seg = take k seg @ seg ! k # drop (Suc k) seg" using p(1) by (simp add: id_take_nth_drop)
  then show "\<exists>e. seg = take k seg @ CHR ''.'' # e \<and> 1 \<le> length e \<and> length e \<le> 6 \<and> list_all is_alnum e"
    using p by (intro exI [of _ "drop (Suc k) seg"]) simp
next
  assume "\<exists>e. seg = take k seg @ CHR ''.'' # e \<and> 1 \<le> length e \<and> length e \<le> 6 \<and> list_all is_alnum e"
  then obtain e where s: "seg = take k seg @ CHR ''.'' # e" and p: "1 \<le> length e" "length e \<le> 6" "list_all is_alnum e"
    by blast
  have k: "k < length seg"
  proof (rule ccontr)
    assume "\<not> k < length seg"
    then have "take k seg = seg" by simp
    with s have "seg = seg @ CHR ''.'' # e" by simp
    then show False by simp
  qed
  then have lk: "length (take k seg) = k" by simp
  have g: "\<And>a. seg = a @ CHR ''.'' # e \<Longrightarrow> length a = k
            \<Longrightarrow> seg ! k = CHR ''.'' \<and> drop (Suc k) seg = e" by auto
  from g [OF s lk] show "short_ext_at seg k" using k p by (simp add: short_ext_at_def Let_def)
qed

lemma file_like_segment_iff:
  "file_like_segment seg = (\<exists>a e. seg = a @ CHR ''.'' # e \<and> a \<noteq> []
       \<and> 1 \<le> length e \<and> length e \<le> 6 \<and> list_all is_alnum e)"
proof
  assume "file_like_segment seg"
  then obtain k where k: "1 \<le> k" "k < length seg" "short_ext_at seg k"
    by (auto simp: file_like_segment_def list_ex_iff)
  then obtain e where "seg = take k seg @ CHR ''.'' # e" "1 \<le> length e" "length e \<le> 6" "list_all is_alnum e"
    by (auto simp: short_ext_at_iff)
  moreover have "take k seg \<noteq> []" using k by auto
  ultimately show "\<exists>a e. seg = a @ CHR ''.'' # e \<and> a \<noteq> []
       \<and> 1 \<le> length e \<and> length e \<le> 6 \<and> list_all is_alnum e" by blast
next
  assume "\<exists>a e. seg = a @ CHR ''.'' # e \<and> a \<noteq> []
       \<and> 1 \<le> length e \<and> length e \<le> 6 \<and> list_all is_alnum e"
  then obtain a e where s: "seg = a @ CHR ''.'' # e" and p: "a \<noteq> []" "1 \<le> length e" "length e \<le> 6" "list_all is_alnum e"
    by blast
  have "take (length a) seg = a" by (simp add: s)
  then have "short_ext_at seg (length a)" using s p by (auto simp: short_ext_at_iff)
  moreover have "1 \<le> length a" "length a < length seg" using p(1) s by (cases a; simp)+
  ultimately show "file_like_segment seg" by (auto simp: file_like_segment_def list_ex_iff)
qed

lemma file_like_after_slash_no_slash:
  "CHR ''/'' \<notin> set t \<Longrightarrow> \<not> file_like_after_slash t"
  by (induction t) auto

lemma FILE_LIKE_RE_search_segment:
  assumes "CHR ''/'' \<notin> set seg"
  shows "FILE_LIKE_RE_search (CHR ''/'' # seg) = file_like_segment seg"
proof -
  have "\<not> file_like_here (CHR ''/'' # seg)"
    unfolding file_like_here_iff
  proof (safe)
    fix a e assume "CHR ''/'' # seg = a @ CHR ''.'' # e" "a \<noteq> []" "CHR ''/'' \<notin> set a"
    then show False by (cases a) auto
  qed
  moreover have "\<And>a e. seg = a @ CHR ''.'' # e \<Longrightarrow> CHR ''/'' \<notin> set a"
    using assms by auto
  then have "file_like_here seg = file_like_segment seg"
    unfolding file_like_here_iff file_like_segment_iff by blast
  ultimately show ?thesis
    using assms by (simp add: FILE_LIKE_RE_search_def file_like_after_slash_no_slash)
qed

lemma last_split_on_no_sep: "sep \<notin> set (last (split_on sep s))"
  by (induction s) (auto split: list.splits simp: split_on_not_Nil)

lemma process_candidate_plain:
  assumes "take 1 s \<noteq> ''.''"
  shows "process_candidate opts s st = fold add_entry (plain_branch_entries opts s) st"
proof -
  define s' where "s' = (if \<not> iis opts then lower s else s)"
  define seg where "seg = last (split_on CHR ''/'' s')"
  define e where "e = percent_encode_keep_slash s'"
  have s'2: "(if iis opts then s else lower s) = s'" by (simp add: s'_def)
  have fl: "FILE_LIKE_RE_search (CHR ''/'' # seg) = file_like_segment seg"
    unfolding seg_def by (rule FILE_LIKE_RE_search_segment [OF last_split_on_no_sep])
  have tr: "(contains ''..'' s \<or> contains ''./'' s \<or> LFI_INDICATORS_search s) = traversal_indicator s"
    by (simp add: traversal_indicator_def LFI_INDICATORS_search_iff)
  have l: "process_candidate opts s st =
      (if traversal_indicator s then st
       else if file_like_segment seg \<and> \<not> VERSION_RE_match seg then st
       else if int (length e) > maxlen opts then st
       else fold add_entry ([e] @ (if add_trailing_variant opts \<and> take 1 e \<noteq> ''.''
                         \<and> (e = [] \<or> last e \<noteq> CHR ''/'') then [e @ ''/''] else [])) st)"
    using assms unfolding process_candidate_def tr Let_def
    unfolding s'_def [symmetric] seg_def [symmetric] e_def [symmetric] fl
    by (simp only: if_False)
  have r: "plain_branch_entries opts s =
      (if traversal_indicator s then []
       else if file_like_segment seg \<and> \<not> VERSION_RE_match seg then []
       else if maxlen opts < int (length e) then []
       else e # (if add_trailing_variant opts \<and> take 1 e \<noteq> ''.''
                      \<and> (e = [] \<or> last e \<noteq> CHR ''/'') then [e @ ''/''] else []))"
    unfolding plain_branch_entries_def Let_def s'2 seg_def [symmetric] e_def [symmetric] ..
  show ?thesis unfolding l r by (simp split del: if_split cong: if_cong add: if_distrib [of "\<lambda>es. fold add_entry es st"])
qed

lemma process_candidate_entries:
  "\<exists>es. process_candidate opts s st = fold add_entry es st"
  using process_candidate_dot [of s opts st] process_candidate_plain [of s opts st] by blast

lemma process_candidate_inv: "output_inv st \<Longrightarrow> output_inv (process_candidate opts s st)"
  using process_candidate_entries [of opts s st] by (auto simp: fold_add_entry_inv)

lemma process_candidate_prefix: "prefix (out_order st) (out_order (process_candidate opts s st))"
  using process_candidate_entries [of opts s st] by (auto simp: fold_add_entry_prefix)

lemma main_step_inv: "output_inv st \<Longrightarrow> output_inv (main_step opts nfkc raw st)"
  by (simp add: main_step_def process_candidate_inv split: option.splits)

lemma main_step_prefix: "prefix (out_order st) (out_order (main_step opts nfkc raw st))"
  by (simp add: main_step_def process_candidate_prefix split: option.splits)

lemma fold_main_step_inv:
  "output_inv st \<Longrightarrow> output_inv (fold (main_step opts nfkc) raws st)"
  by (induction raws arbitrary: st) (simp_all add: main_step_inv)

lemma fold_main_step_prefix:
  "prefix (out_order st) (out_order (fold (main_step opts nfkc) raws st))"
proof (induction raws arbitrary: st)
  case Nil
  show ?case by simp
next
  case (Cons raw raws)
  have "prefix (out_order st) (out_order (main_step opts nfkc raw st))"
    by (rule main_step_prefix)
  also have "prefix \<dots> (out_order (fold (main_step opts nfkc) raws (main_step opts nfkc raw st)))"
    by (rule Cons.IH)
  finally show ?case by simp
qed

lemma main_loop_inv: "output_inv (main_loop opts nfkc raws)"
  unfolding main_loop_def by (rule fold_main_step_inv) (simp add: output_inv_def empty_output_def)

lemma seen_fold_add_entry: "seen (fold add_entry es st) = seen st \<union> set es"
  by (induction es arbitrary: st) (auto simp: add_entry_def)

lemma set_out_add_entry: "set (out_order (add_entry v st)) \<subseteq> insert v (set (out_order st))"
  by (auto simp: add_entry_def)

lemma set_out_fold_add_entry:
  "set (out_order (fold add_entry es st)) \<subseteq> set (out_order st) \<union> set es"
proof (induction es arbitrary: st)
  case Nil
  show ?case by simp
next
  case (Cons v es)
  show ?case using Cons.IH [of "add_entry v st"] set_out_add_entry [of v st] by auto
qed

text \<open>
  Claim C8. The output set never holds the same encoded string twice: after any run
  \<open>out_order\<close> is duplicate-free and \<open>seen\<close> is exactly its set of entries, so the lines
  written (sorted or not) are pairwise different; every line only adds entries through
  the membership check of \<open>add_entry\<close>; and entries keep their first-seen position, the
  output of a longer input extends that of its beginning.
\<close>

theorem output_set_has_no_duplicates:
  "distinct (out_order (main_loop opts nfkc raws))
   \<and> seen (main_loop opts nfkc raws) = set (out_order (main_loop opts nfkc raws))
   \<and> distinct (main_output opts nfkc raws)
   \<and> (\<exists>es. main_step opts nfkc raw st = fold add_entry es st)
   \<and> prefix (out_order (main_loop opts nfkc raws)) (out_order (main_loop opts nfkc (raws @ later)))"
proof -
  have i: "output_inv (main_loop opts nfkc raws)" by (rule main_loop_inv)
  have s: "\<exists>es. main_step opts nfkc raw st = fold add_entry es st"
  proof (cases "candidate_of_line nfkc raw")
    case None
    then have "main_step opts nfkc raw st = fold add_entry [] st" by (simp add: main_step_def)
    then show ?thesis by blast
  next
    case (Some s)
    then show ?thesis using process_candidate_entries [of opts s st] by (simp add: main_step_def)
  qed
  have p: "prefix (out_order (main_loop opts nfkc raws)) (out_order (main_loop opts nfkc (raws @ later)))"
    unfolding main_loop_def fold_append comp_def by (rule fold_main_step_prefix)
  from i s p show ?thesis by (simp add: output_inv_def main_output_def final_output_def)
qed

theorem output_set_has_no_duplicates_witness:
  "distinct (main_output default_options nfkc_ascii [''admin'', ''Admin'', ''.admin'', ''/admin/''])
   \<and> main_output default_options nfkc_ascii [''admin'', ''Admin'', ''.admin'', ''/admin/'']
       = [''admin'', ''.admin'']"
proof -
  have "main_output default_options nfkc_ascii [''admin'', ''Admin'', ''.admin'', ''/admin/'']
          = [''admin'', ''.admin'']"
    by code_simp
  moreover have "distinct (main_output default_options nfkc_ascii
                             [''admin'', ''Admin'', ''.admin'', ''/admin/''])"
    using output_set_has_no_duplicates
            [of default_options nfkc_ascii "[''admin'', ''Admin'', ''.admin'', ''/admin/'']"]
    by blast
  ultimately show ?thesis by simp
qed

lemma length_gate_le: "e \<in> set (length_gate opts es) \<Longrightarrow> int (length e) \<le> maxlen opts"
  by (simp add: length_gate_def)

lemma dot_branch_entries_le:
  "e \<in> set (dot_branch_entries opts s) \<Longrightarrow> int (length e) \<le> maxlen opts"
  by (auto simp: dot_branch_entries_def Let_def length_gate_def split: if_splits)

lemma plain_branch_entries_le:
  "\<not> add_trailing_variant opts \<Longrightarrow> e \<in> set (plain_branch_entries opts s)
     \<Longrightarrow> int (length e) \<le> maxlen opts"
  by (auto simp: plain_branch_entries_def Let_def split: if_splits)

lemma process_candidate_within_maxlen:
  assumes "\<not> add_trailing_variant opts" "within_maxlen opts st"
  shows "within_maxlen opts (process_candidate opts s st)"
proof (cases "take 1 s = ''.''")
  case True
  then show ?thesis
    using assms set_out_fold_add_entry [of "dot_branch_entries opts s" st] dot_branch_entries_le [of _ opts s]
    unfolding within_maxlen_def list_all_iff process_candidate_dot [OF True] by blast
next
  case False
  then show ?thesis
    using assms set_out_fold_add_entry [of "plain_branch_entries opts s" st] plain_branch_entries_le [of opts _ s]
    unfolding within_maxlen_def list_all_iff process_candidate_plain [OF False] by blast
qed

lemma fold_main_step_within_maxlen:
  "\<not> add_trailing_variant opts \<Longrightarrow> within_maxlen opts st
     \<Longrightarrow> within_maxlen opts (fold (main_step opts nfkc) raws st)"
  by (induction raws arbitrary: st)
     (simp_all add: main_step_def process_candidate_within_maxlen split: option.splits)

lemma maxlen_holds_without_trailing_variant:
  "\<not> add_trailing_variant opts \<Longrightarrow> within_maxlen opts (main_loop opts nfkc raws)"
  unfolding main_loop_def
  by (rule fold_main_step_within_maxlen) (simp_all add: within_maxlen_def empty_output_def)

text \<open>
  Claim C7. Every entry of the output set has an encoded length of at most \<open>maxlen\<close>.
  Without the trailing-slash variant this holds (\<open>maxlen_holds_without_trailing_variant\<close>).
  With \<open>--add-trailing-variant\<close> the length is checked before the slash is appended: for a
  line of 200 letters and the default maximum of 200, the variant of 201 characters is
  added to the output set.
\<close>

theorem trailing_variant_exceeds_maxlen:
  "out_order (main_loop (default_options\<lparr>add_trailing_variant := True\<rparr>) nfkc_ascii
                [replicate 200 CHR ''a''])
     = [replicate 200 CHR ''a'', replicate 200 CHR ''a'' @ ''/'']
   \<and> length (replicate 200 CHR ''a'' @ ''/'') = 201
   \<and> maxlen (default_options\<lparr>add_trailing_variant := True\<rparr>) = 200"
proof -
  have "out_order (main_loop (default_options\<lparr>add_trailing_variant := True\<rparr>) nfkc_ascii
                [replicate 200 CHR ''a''])
     = [replicate 200 CHR ''a'', replicate 200 CHR ''a'' @ ''/'']"
    by code_simp
  then show ?thesis by (simp add: default_options_def)
qed

section \<open>The classifier: claims C1, C2, C5 and C6\<close>

lemma main_step_candidate:
  "candidate_of_line nfkc raw = Some s \<Longrightarrow> main_step opts nfkc raw st = process_candidate opts s st"
  by (simp add: main_step_def)

lemma quote_dot: "percent_encode_keep_slash (CHR ''.'' # t) = CHR ''.'' # percent_encode_keep_slash t"
  by (simp add: percent_encode_keep_slash_def quote_char_def is_safe_def Let_def)

lemma DOT_EXT_sub_decomp: "\<exists>ext. t = DOT_EXT_sub t @ ext \<and> (ext = [] \<or> dot_ext_groups ext)"
proof (induction t)
  case Nil
  show ?case by simp
next
  case (Cons c cs)
  show ?case
  proof (cases "dot_ext_groups (c # cs)")
    case True
    then show ?thesis by simp
  next
    case False
    then show ?thesis using Cons by auto
  qed
qed

lemma DOT_EXT_sub_leftmost: "k < length (DOT_EXT_sub t) \<Longrightarrow> \<not> dot_ext_groups (drop k t)"
proof (induction t arbitrary: k)
  case Nil
  then show ?case by simp
next
  case (Cons c cs)
  then show ?case by (cases k) (auto split: if_splits)
qed

text \<open>
  Claim C2. The two branches are mutually exclusive per candidate. A candidate that starts
  with a dot is handled by the dot rules alone: what it adds to the output set is
  \<open>dot_branch_entries\<close>, in which neither the traversal rejection nor the file-like drop
  occurs. Any other candidate is handled by \<open>plain_branch_entries\<close>, in which no dot-specific
  rule occurs. So \<open>.git/../secret\<close> is emitted, in both its forms.
\<close>

theorem dot_and_plain_branch_exclusive:
  "(take 1 s = ''.'' \<longrightarrow>
      process_candidate opts s st = fold add_entry (dot_branch_entries opts s) st
      \<and> seen (process_candidate opts s st) = seen st \<union> set (dot_branch_entries opts s))
   \<and> (take 1 s \<noteq> ''.'' \<longrightarrow>
      process_candidate opts s st = fold add_entry (plain_branch_entries opts s) st
      \<and> seen (process_candidate opts s st) = seen st \<union> set (plain_branch_entries opts s))"
  using process_candidate_dot [of s opts st] process_candidate_plain [of s opts st]
  by (simp add: seen_fold_add_entry)

theorem dot_and_plain_branch_exclusive_witness:
  "take 1 ''.git/../secret'' = ''.'' \<and> traversal_indicator ''.git/../secret''
   \<and> dot_branch_entries default_options ''.git/../secret'' = [''.git/../secret'', ''git/../secret'']
   \<and> out_order (process_candidate default_options ''.git/../secret'' empty_output)
        = [''.git/../secret'', ''git/../secret'']
   \<and> take 1 ''git/../secret'' \<noteq> ''.''
   \<and> plain_branch_entries default_options ''git/../secret'' = []
   \<and> out_order (process_candidate default_options ''git/../secret'' empty_output) = []"
proof -
  have a: "take 1 ''.git/../secret'' = ''.''" "take 1 ''git/../secret'' \<noteq> ''.''" by simp_all
  have b: "traversal_indicator ''.git/../secret''" by code_simp
  have c: "dot_branch_entries default_options ''.git/../secret'' = [''.git/../secret'', ''git/../secret'']"
    by code_simp
  have d: "plain_branch_entries default_options ''git/../secret'' = []" by code_simp
  have e: "out_order (fold add_entry [''.git/../secret'', ''git/../secret''] empty_output)
             = [''.git/../secret'', ''git/../secret'']" by code_simp
  from dot_and_plain_branch_exclusive [of "''.git/../secret''" default_options empty_output] a(1)
  have "process_candidate default_options ''.git/../secret'' empty_output
          = fold add_entry (dot_branch_entries default_options ''.git/../secret'') empty_output"
    by blast
  moreover
  from dot_and_plain_branch_exclusive [of "''git/../secret''" default_options empty_output] a(2)
  have "process_candidate default_options ''git/../secret'' empty_output
          = fold add_entry (plain_branch_entries default_options ''git/../secret'') empty_output"
    by blast
  ultimately show ?thesis using a b c d e by (simp add: empty_output_def)
qed

text \<open>
  Claim C1, as amended. The claim speaks of the input line; the check is made on the
  candidate that reaches the classifier, after the comment, URL, slash and Unicode stages.
  For every candidate that does not start with a dot there and that contains \<open>..\<close>, or
  contains \<open>./\<close>, or has a path segment equal to \<open>.\<close> or \<open>..\<close>, the pipeline emits nothing
  for the line: the output set is unchanged.
\<close>

theorem traversal_candidate_emits_nothing:
  assumes "candidate_of_line nfkc raw = Some s" and "take 1 s \<noteq> ''.''"
    and "contains ''..'' s \<or> contains ''./'' s \<or> dot_segment s"
  shows "main_step opts nfkc raw st = st"
proof -
  have "traversal_indicator s" using assms(3) by (simp add: traversal_indicator_def)
  then have "plain_branch_entries opts s = []" by (simp add: plain_branch_entries_def Let_def)
  then show ?thesis
    using main_step_candidate [OF assms(1)] process_candidate_plain [OF assms(2)] by simp
qed

theorem traversal_candidate_emits_nothing_witness:
  "candidate_of_line nfkc_ascii ''https://x.com/admin/../etc?x=1'' = Some ''admin/../etc''
   \<and> take 1 ''admin/../etc'' \<noteq> ''.''
   \<and> dot_segment ''admin/../etc''
   \<and> main_step default_options nfkc_ascii ''https://x.com/admin/../etc?x=1'' empty_output = empty_output"
proof -
  have a: "candidate_of_line nfkc_ascii ''https://x.com/admin/../etc?x=1'' = Some ''admin/../etc''"
    by code_simp
  have b: "take 1 ''admin/../etc'' \<noteq> ''.''" by simp
  have c: "dot_segment ''admin/../etc''" by code_simp
  from traversal_candidate_emits_nothing [OF a b, of default_options empty_output] c
  show ?thesis using a b by simp
qed

text \<open>
  The input line \<open>/../etc\<close> does not start with a dot and contains \<open>..\<close>; once its leading
  slash is trimmed the candidate is dot-prefixed, and two entries are emitted.
\<close>

theorem traversal_line_reaches_output_counterexample:
  "take 1 ''/../etc'' \<noteq> ''.'' \<and> contains ''..'' ''/../etc''
   \<and> main_output default_options nfkc_ascii [''/../etc''] = [''../etc'', ''./etc'']"
  by code_simp

text \<open>
  Claim C5, as amended. For every candidate that does not start with a dot and survives
  traversal filtering: if its last segment (after case folding) is file-like, that is, has
  at least one character, then a dot, then 1 to 6 ASCII letters or digits, and is not a
  version folder, the candidate is dropped; if the segment is not file-like or is a version
  folder, the encoded candidate is in the output set afterwards, provided it passes the
  length gate.
\<close>

theorem file_like_dropped_version_kept:
  assumes "take 1 s \<noteq> ''.''" and "\<not> traversal_indicator s"
    and "s' = (if iis opts then s else lower s)"
    and "seg = last (split_on CHR ''/'' s')"
  shows "(file_like_segment seg \<and> \<not> VERSION_RE_match seg
            \<longrightarrow> process_candidate opts s st = st)
       \<and> ((\<not> file_like_segment seg \<or> VERSION_RE_match seg)
            \<and> int (length (percent_encode_keep_slash s')) \<le> maxlen opts
            \<longrightarrow> percent_encode_keep_slash s' \<in> seen (process_candidate opts s st))"
  unfolding process_candidate_plain [OF assms(1)] seen_fold_add_entry
  using assms(2-4) by (auto simp: plain_branch_entries_def Let_def)

theorem file_like_dropped_version_kept_witness:
  "candidate_of_line nfkc_ascii ''https://x.com/Admin/Login.PHP?x=1'' = Some ''Admin/Login.PHP''
   \<and> file_like_segment ''login.php'' \<and> \<not> VERSION_RE_match ''login.php''
   \<and> process_candidate default_options ''Admin/Login.PHP'' empty_output = empty_output
   \<and> main_output default_options nfkc_ascii [''https://x.com/Admin/Login.PHP?x=1''] = []
   \<and> file_like_segment ''v1.2'' \<and> VERSION_RE_match ''v1.2''
   \<and> ''v1.2'' \<in> seen (process_candidate default_options ''v1.2'' empty_output)
   \<and> main_output default_options nfkc_ascii [''v1.2/Users''] = [''v1.2/users'']"
proof -
  have a: "take 1 ''Admin/Login.PHP'' \<noteq> ''.''" "take 1 ''v1.2'' \<noteq> ''.''" by simp_all
  have b: "\<not> traversal_indicator ''Admin/Login.PHP''" "\<not> traversal_indicator ''v1.2''"
    by code_simp+
  have c: "''admin/login.php'' = (if iis default_options then ''Admin/Login.PHP'' else lower ''Admin/Login.PHP'')"
     "''v1.2'' = (if iis default_options then ''v1.2'' else lower ''v1.2'')"
    by code_simp+
  have d: "''login.php'' = last (split_on CHR ''/'' ''admin/login.php'')"
    "''v1.2'' = last (split_on CHR ''/'' ''v1.2'')" by code_simp+
  have e: "file_like_segment ''login.php''" "\<not> VERSION_RE_match ''login.php''"
    "file_like_segment ''v1.2''" "VERSION_RE_match ''v1.2''"
    "int (length (percent_encode_keep_slash ''v1.2'')) \<le> maxlen default_options"
    "percent_encode_keep_slash ''v1.2'' = ''v1.2''"
    by code_simp+
  have f: "candidate_of_line nfkc_ascii ''https://x.com/Admin/Login.PHP?x=1'' = Some ''Admin/Login.PHP''"
    "main_output default_options nfkc_ascii [''https://x.com/Admin/Login.PHP?x=1''] = []"
    "main_output default_options nfkc_ascii [''v1.2/Users''] = [''v1.2/users'']"
    by code_simp+
  from file_like_dropped_version_kept [OF a(1) b(1) c(1) d(1), of empty_output] e
  have g: "process_candidate default_options ''Admin/Login.PHP'' empty_output = empty_output"
    by blast
  from file_like_dropped_version_kept [OF a(2) b(2) c(2) d(2), of empty_output] e
  have h: "''v1.2'' \<in> seen (process_candidate default_options ''v1.2'' empty_output)"
    by simp
  from e f g h show ?thesis by simp
qed

text \<open>
  The last segment \<open>.git\<close> of \<open>a/.git\<close> ends in a dot followed by three letters and is no
  version folder, but nothing precedes the dot: the candidate is kept.
\<close>

theorem hidden_last_segment_kept_counterexample:
  "take 1 ''a/.git'' \<noteq> ''.'' \<and> \<not> traversal_indicator ''a/.git''
   \<and> ends_in_short_ext (last (split_on CHR ''/'' ''a/.git''))
   \<and> \<not> VERSION_RE_match (last (split_on CHR ''/'' ''a/.git''))
   \<and> main_output default_options nfkc_ascii [''a/.git''] = [''a/.git'']"
  by code_simp

text \<open>
  Claim C6, as amended. For a dot-prefixed candidate under the default options, the core is
  the text after the leading dot, lower-cased, with the leftmost suffix made of extension
  groups removed. If the core is empty nothing is emitted. Otherwise exactly the two
  variants \<open>.core\<close> and \<open>core\<close> are offered, in this order, each encoded, length-checked and
  added unless already seen; on an empty output set and within the length limit the
  output is these two entries.
\<close>

theorem dot_entry_default_variants:
  assumes "take 1 s = ''.''" and "core = DOT_EXT_sub (lower (tl s))"
  shows "(core = [] \<longrightarrow> process_candidate default_options s st = st)
       \<and> (core \<noteq> [] \<longrightarrow> process_candidate default_options s st
             = add_dot_variant default_options core
                 (add_dot_variant default_options (CHR ''.'' # core) st))
       \<and> (core \<noteq> [] \<and> length (percent_encode_keep_slash core) < 200 \<longrightarrow>
            out_order (process_candidate default_options s empty_output)
              = [CHR ''.'' # percent_encode_keep_slash core, percent_encode_keep_slash core])
       \<and> (\<exists>ext. lower (tl s) = core @ ext \<and> (ext = [] \<or> dot_ext_groups ext))
       \<and> (\<forall>k<length core. \<not> dot_ext_groups (drop k (lower (tl s))))"
proof -
  obtain rest where s: "s = CHR ''.'' # rest" using assms(1) by (cases s) auto
  have core: "core = DOT_EXT_sub (lower rest)" using assms(2) s by simp
  have e: "lower [] = []" by (simp add: lower_def)
  have p: "\<And>st. process_candidate default_options s st =
      (if core = [] then st
       else add_dot_variant default_options core
              (add_dot_variant default_options (CHR ''.'' # core) st))"
    unfolding s process_candidate_def core
    by (cases "rest = []") (simp_all add: default_options_def Let_def e)
  have q: "core \<noteq> [] \<Longrightarrow> length (percent_encode_keep_slash core) < 200 \<Longrightarrow>
      out_order (add_dot_variant default_options core
              (add_dot_variant default_options (CHR ''.'' # core) empty_output))
        = [CHR ''.'' # percent_encode_keep_slash core, percent_encode_keep_slash core]"
    by (simp add: add_dot_variant_def Let_def quote_dot default_options_def add_entry_def
          empty_output_def)
  have d: "\<exists>ext. lower (tl s) = core @ ext \<and> (ext = [] \<or> dot_ext_groups ext)"
    unfolding assms(2) by (rule DOT_EXT_sub_decomp)
  have l: "\<forall>k<length core. \<not> dot_ext_groups (drop k (lower (tl s)))"
    unfolding assms(2) by (simp add: DOT_EXT_sub_leftmost)
  show ?thesis using p q d l by simp
qed

theorem dot_entry_default_variants_witness:
  "take 1 ''.env.production'' = ''.''
   \<and> ''env'' = DOT_EXT_sub (lower (tl ''.env.production''))
   \<and> out_order (process_candidate default_options ''.env.production'' empty_output)
        = [''.env'', ''env'']
   \<and> main_output default_options nfkc_ascii [''.env.production''] = [''.env'', ''env'']"
proof -
  have a: "take 1 ''.env.production'' = ''.''" by simp
  have b: "''env'' = DOT_EXT_sub (lower (tl ''.env.production''))" by code_simp
  have c: "percent_encode_keep_slash ''env'' = ''env''" by code_simp
  have d: "main_output default_options nfkc_ascii [''.env.production''] = [''.env'', ''env'']"
    by code_simp
  from dot_entry_default_variants [OF a b, of empty_output]
  have "''env'' \<noteq> [] \<and> length (percent_encode_keep_slash ''env'') < 200 \<longrightarrow>
          out_order (process_candidate default_options ''.env.production'' empty_output)
            = [CHR ''.'' # percent_encode_keep_slash ''env'', percent_encode_keep_slash ''env'']"
    by blast
  then have "out_order (process_candidate default_options ''.env.production'' empty_output)
        = [''.env'', ''env'']" unfolding c by simp
  with a b d show ?thesis by simp
qed

text \<open>
  The dot-prefixed candidate \<open>..env\<close> has the core \<open>.env\<close>, which is one extension group:
  nothing is left and nothing is emitted.
\<close>

theorem dot_entry_all_extension_counterexample:
  "take 1 ''..env'' = ''.'' \<and> candidate_of_line nfkc_ascii ''..env'' = Some ''..env''
   \<and> main_output default_options nfkc_ascii [''..env''] = []"
  by code_simp

section \<open>The converter: claims C9 and C10\<close>

lemma dropWhile_isspace_Cons: "dropWhile isspace p = c # r \<Longrightarrow> \<not> isspace c"
  using hd_dropWhile [of isspace p] by simp

lemma strip_starts:
  assumes "dropWhile isspace p = c # r"
  shows "\<exists>t. strip p = c # t"
proof -
  have nc: "\<not> isspace c" using assms by (rule dropWhile_isspace_Cons)
  have p: "p = takeWhile isspace p @ c # r" using assms by (metis takeWhile_dropWhile_id)
  have "rev p = rev r @ c # rev (takeWhile isspace p)" by (subst p) simp
  then have "dropWhile isspace (rev p) = dropWhile isspace (rev r) @ c # rev (takeWhile isspace p)"
    using nc by (simp add: dropWhile_append3)
  then have "rstrip p = takeWhile isspace p @ c # rev (dropWhile isspace (rev r))"
    by (simp add: rstrip_def)
  moreover have "\<And>x. x \<in> set (takeWhile isspace p) \<Longrightarrow> isspace x"
    by (auto dest: set_takeWhileD)
  ultimately have "strip p = c # rev (dropWhile isspace (rev r))"
    using nc by (simp add: strip_def lstrip_def dropWhile_append2)
  then show ?thesis by blast
qed

lemma strip_all_space:
  assumes "dropWhile isspace p = []"
  shows "strip p = []"
proof -
  have "\<forall>x\<in>set p. isspace x" using assms by (simp add: dropWhile_eq_Nil_conv)
  then have "dropWhile isspace (rev p) = []" by (simp add: dropWhile_eq_Nil_conv)
  then show ?thesis unfolding strip_def rstrip_def lstrip_def
    by (simp del: dropWhile_eq_Nil_conv)
qed

lemma dropWhile_take_starts:
  "dropWhile isspace raw = c # rest \<Longrightarrow>
     dropWhile isspace (take n raw) = [] \<or> (\<exists>r. dropWhile isspace (take n raw) = c # r)"
proof (induction raw arbitrary: n)
  case Nil
  then show ?case by simp
next
  case (Cons x xs)
  show ?case
  proof (cases n)
    case 0
    then show ?thesis by simp
  next
    case (Suc m)
    show ?thesis
    proof (cases "isspace x")
      case True
      then show ?thesis using Cons Suc by simp
    next
      case False
      then show ?thesis using Cons.prems Suc by simp
    qed
  qed
qed

lemma strip_take_starts:
  assumes "dropWhile isspace raw = c # rest"
  shows "strip (take n raw) = [] \<or> (\<exists>t. strip (take n raw) = c # t)"
  using dropWhile_take_starts [OF assms, of n] strip_all_space strip_starts by blast

lemma strip_comment_is_take:
  "strip_comment raw = [] \<or> (\<exists>n. strip_comment raw = take n (lstrip_BOM raw))"
proof -
  have "\<exists>n. lstrip_BOM raw = take n (lstrip_BOM raw)"
    by (rule exI [of _ "length (lstrip_BOM raw)"]) simp
  then show ?thesis
    by (auto simp: strip_comment_def Let_def split: option.splits)
qed

text \<open>
  Claim C10. With \<open>keep_markers\<close> off, the converter emits nothing for a line whose first
  character that is not white space is one of \<open>! @ # $ %\<close>: the keys seen so far are
  unchanged, whatever the other options are. This holds as well when byte-order marks
  precede the line, since they are removed first. Entries such as \<open>$backup\<close> or \<open>%temp%\<close>
  come through only with \<open>keep_markers\<close> on.
\<close>

theorem marker_lines_skipped_by_default:
  assumes "first_nonspace (lstrip_BOM raw) = Some c" and "c \<in> set ''!@#$%''"
    and "\<not> keep_markers opts"
  shows "process_file_step opts raw seen_keys = seen_keys"
proof -
  obtain rest where d: "dropWhile isspace (lstrip_BOM raw) = c # rest"
    using assms(1) by (auto simp: first_nonspace_def split: list.splits)
  define line where "line = strip_comment raw"
  have "line = [] \<or> strip line = [] \<or> (\<exists>t. strip line = c # t)"
  proof (cases "line = []")
    case True
    then show ?thesis by simp
  next
    case False
    then obtain n where "line = take n (lstrip_BOM raw)"
      using strip_comment_is_take [of raw] unfolding line_def by blast
    then show ?thesis using strip_take_starts [OF d, of n] by simp
  qed
  then have "line = [] \<or> strip line = [] \<or> take 1 (strip line) \<in> {''!'', ''@'', ''#'', ''$'', ''%''}"
    using assms(2) by auto
  then show ?thesis
    using assms(3) unfolding process_file_step_def line_def [symmetric] Let_def by auto
qed

theorem marker_lines_skipped_by_default_witness:
  "first_nonspace (lstrip_BOM (Line 0 ''  $backup'')) = Some CHR ''$'' \<and> CHR ''$'' \<in> set ''!@#$%''
   \<and> \<not> keep_markers conv_defaults
   \<and> process_file_step conv_defaults (Line 0 ''  $backup'') [''admin''] = [''admin'']
   \<and> process_file conv_defaults
        [Line 0 ''$backup'', Line 0 ''%temp%'', Line 0 ''!old'', Line 0 ''@home'', Line 0 ''#note'',
         Line 1 ''$backup''] = []
   \<and> process_file (conv_defaults\<lparr>keep_markers := True\<rparr>) [Line 0 ''$backup'', Line 0 ''%temp%'']
        = [''$backup'', ''%temp%'']"
proof -
  have a: "first_nonspace (lstrip_BOM (Line 0 ''  $backup'')) = Some CHR ''$''" by code_simp
  have b: "CHR ''$'' \<in> set ''!@#$%''" by simp
  have c: "\<not> keep_markers conv_defaults" by (simp add: conv_defaults_def)
  have d: "process_file conv_defaults
        [Line 0 ''$backup'', Line 0 ''%temp%'', Line 0 ''!old'', Line 0 ''@home'', Line 0 ''#note'',
         Line 1 ''$backup''] = []"
    "process_file (conv_defaults\<lparr>keep_markers := True\<rparr>) [Line 0 ''$backup'', Line 0 ''%temp%'']
        = [''$backup'', ''%temp%'']"
    by code_simp+
  from marker_lines_skipped_by_default [OF a b c, of "[''admin'']"] a b c d
  show ?thesis by simp
qed

lemma join_slash_snoc: "xs \<noteq> [] \<Longrightarrow> join_slash (xs @ [y]) = join_slash xs @ ''/'' @ y"
  by (induction xs rule: join_slash.induct) auto

lemma join_slash_split_on: "join_slash (split_on CHR ''/'' s) = s"
proof (induction s)
  case Nil
  show ?case by simp
next
  case (Cons c cs)
  obtain seg segs where sp: "split_on CHR ''/'' cs = seg # segs"
    by (cases "split_on CHR ''/'' cs") (auto simp: split_on_not_Nil)
  show ?case using Cons sp by (cases segs) auto
qed

lemma butlast_snoc_last: "xs \<noteq> [] \<Longrightarrow> butlast xs @ [last xs] = xs"
  by simp

lemma remove_extensions_plain_path:
  assumes "list_all (\<lambda>seg. seg \<noteq> [] \<and> seg \<noteq> ''.'') (split_on CHR ''/'' name)"
  shows "remove_extensions name alts
           = join_slash (butlast (split_on CHR ''/'' name)
                         @ [ext_re_sub alts (last (split_on CHR ''/'' name))])"
proof -
  define segs where "segs = split_on CHR ''/'' name"
  have ne: "segs \<noteq> []" by (simp add: segs_def split_on_not_Nil)
  have parts: "posix_parts name = segs"
    using assms by (simp add: posix_parts_def segs_def list_all_iff filter_id_conv)
  have hd: "hd segs \<noteq> []" using assms ne by (cases segs) (auto simp: segs_def)
  have name: "name \<noteq> []" using hd unfolding segs_def by (cases name) auto
  have "take 1 name \<noteq> ''/''"
    using hd unfolding segs_def hd_split_on by (cases name) auto
  then have root: "posix_root name = []" by (cases name) (auto simp: posix_root_def)
  have js: "join_slash segs = name" unfolding segs_def by (rule join_slash_split_on)
  have stem: "posix_name name = last segs" using ne by (simp add: posix_name_def parts)
  show ?thesis
  proof (cases "ext_re_sub alts (last segs) = last segs")
    case True
    then show ?thesis
      using ne name js by (simp add: remove_extensions_def stem root parts posix_str_def
          segs_def [symmetric] Let_def)
  next
    case False
    show ?thesis
    proof (cases "butlast segs = []")
      case True
      then show ?thesis
        using False name by (simp add: remove_extensions_def stem root parts posix_str_def
          posix_parent_def segs_def [symmetric] Let_def)
    next
      case bl: False
      have nd: "join_slash (butlast segs) \<noteq> ''.''"
      proof
        assume a: "join_slash (butlast segs) = ''.''"
        obtain x xs where b: "butlast segs = x # xs" using bl by (cases "butlast segs") auto
        have "x \<in> set segs" using b by (metis in_set_butlastD list.set_intros(1))
        then have x: "x \<noteq> [] \<and> x \<noteq> ''.''" using assms by (simp add: list_all_iff segs_def)
        show False using a x unfolding b by (cases xs; cases x) auto
      qed
      have nn: "join_slash (butlast segs) \<noteq> []"
      proof
        assume a: "join_slash (butlast segs) = []"
        obtain x xs where b: "butlast segs = x # xs" using bl by (cases "butlast segs") auto
        have "x \<in> set segs" using b by (metis in_set_butlastD list.set_intros(1))
        then have x: "x \<noteq> []" using assms by (simp add: list_all_iff segs_def)
        show False using a x unfolding b by (cases xs) auto
      qed
      show ?thesis
        using False name bl nd nn
        by (simp add: remove_extensions_def stem root parts posix_str_def posix_parent_def
            segs_def [symmetric] Let_def join_slash_snoc)
    qed
  qed
qed

lemma build_ext_regex_DEFAULT_EXTS: "build_ext_regex DEFAULT_EXTS =
  [''tar.bz2'', ''tar.gz'', ''tar.xz'', ''sql.gz'', ''phtml'', ''shtml'',
  ''xhtml'', ''tbz2'', ''orig'', ''save'', ''php5'', ''aspx'', ''html'',
  ''json'', ''yaml'', ''conf'', ''docx'', ''xlsx'', ''pptx'', ''tar'',
  ''tgz'', ''zip'', ''rar'', ''bz2'', ''sql'', ''bak'', ''old'', ''php'',
  ''asp'', ''jsp'', ''htm'', ''css'', ''xml'', ''yml'', ''txt'', ''csv'',
  ''log'', ''cfg'', ''ini'', ''env'', ''pem'', ''key'', ''crt'', ''cer'',
  ''exe'', ''bin'', ''dll'', ''img'', ''iso'', ''pdf'', ''doc'', ''xls'',
  ''ppt'', ''7z'', ''gz'', ''xz'', ''db'', ''js'', ''md'']"
  by code_simp

lemma ext_run_single: "e \<in> set exts \<Longrightarrow> lower e' = lower e \<Longrightarrow> ext_run exts (CHR ''.'' # e')"
  unfolding ext_run_def by (rule exI [of _ "[e']"]) auto

lemma ext_run_cons:
  assumes "e \<in> set exts" and "lower e' = lower e" and "ext_run exts g"
  shows "ext_run exts (CHR ''.'' # e' @ g)"
proof -
  obtain es where es: "es \<noteq> []" "g = concat (map (\<lambda>e'. CHR ''.'' # e') es)"
    "\<forall>e'\<in>set es. \<exists>e\<in>set exts. lower e' = lower e"
    using assms(3) unfolding ext_run_def by blast
  show ?thesis
    unfolding ext_run_def using es assms(1,2) by (intro exI [of _ "e' # es"]) auto
qed

lemma ext_run_cases:
  assumes "ext_run exts g"
  obtains e e' where "e \<in> set exts" "lower e' = lower e" "g = CHR ''.'' # e'"
  | e e' g' where "e \<in> set exts" "lower e' = lower e" "g = CHR ''.'' # e' @ g'" "ext_run exts g'"
proof -
  obtain es where es: "es \<noteq> []" "g = concat (map (\<lambda>e'. CHR ''.'' # e') es)"
    "\<forall>e'\<in>set es. \<exists>e\<in>set exts. lower e' = lower e"
    using assms unfolding ext_run_def by blast
  then obtain x xs where x: "es = x # xs" by (cases es) auto
  obtain e where e: "e \<in> set exts" "lower x = lower e" using es(3) x by auto
  show ?thesis
  proof (cases "xs = []")
    case True
    then show ?thesis using that(1) [OF e] es(2) x by simp
  next
    case False
    then have "ext_run exts (concat (map (\<lambda>e'. CHR ''.'' # e') xs))"
      unfolding ext_run_def using es(3) x by (intro exI [of _ xs]) auto
    then show ?thesis using that(2) [OF e] es(2) x by simp
  qed
qed

lemma lower_length: "lower a = lower b \<Longrightarrow> length a = length b"
  by (metis length_map lower_def)

lemma alt_matches_iff:
  "(length e \<le> length t \<and> lower (take (length e) t) = lower e)
     = (\<exists>e' t'. t = e' @ t' \<and> lower e' = lower e)"
proof
  assume "length e \<le> length t \<and> lower (take (length e) t) = lower e"
  then have "t = take (length e) t @ drop (length e) t \<and> lower (take (length e) t) = lower e"
    by simp
  then show "\<exists>e' t'. t = e' @ t' \<and> lower e' = lower e" by blast
next
  assume "\<exists>e' t'. t = e' @ t' \<and> lower e' = lower e"
  then obtain e' t' where h: "t = e' @ t'" "lower e' = lower e" by blast
  have "length e' = length e" using h(2) by (rule lower_length)
  then show "length e \<le> length t \<and> lower (take (length e) t) = lower e" using h by simp
qed

lemma group_from_nomatch:
  assumes "\<not> (length e \<le> length t \<and> lower (take (length e) t) = lower e)"
  shows "group_from alts (e # es) t = group_from alts es t"
  by (subst group_from.simps) (simp only: if_not_P [OF assms])

lemma group_from_match:
  assumes "length e \<le> length t \<and> lower (take (length e) t) = lower e"
  shows "group_from alts (e # es) t =
     (case (case drop (length e) t of
              [] \<Rightarrow> None
            | c # cs \<Rightarrow> if c = CHR ''.'' then group_from alts alts cs else None) of
        Some r \<Rightarrow> Some r
      | None \<Rightarrow>
          if drop (length e) t = [] \<or> drop (length e) t = [LF]
          then Some (drop (length e) t)
          else group_from alts es t)"
  by (subst group_from.simps) (simp only: if_P [OF assms])

declare group_from.simps(2) [simp del]

lemma group_from_sound:
  "group_from alts todo t = Some r \<Longrightarrow> set todo \<subseteq> set alts \<Longrightarrow>
     \<exists>g. CHR ''.'' # t = g @ r \<and> ext_run alts g \<and> dollar_tail r"
proof (induction alts todo t arbitrary: r rule: group_from.induct)
  case (1 alts t)
  then show ?case by simp
next
  case (2 alts e es t)
  let ?t' = "drop (length e) t"
  show ?case
  proof (cases "length e \<le> length t \<and> lower (take (length e) t) = lower e")
    case False
    then have "group_from alts es t = Some r"
      using "2.prems"(1) by (simp only: group_from_nomatch [OF False])
    then show ?thesis using "2.IH"(3) [OF False] "2.prems"(2) by simp
  next
    case m: True
    have e: "e \<in> set alts" using "2.prems"(2) by simp
    have t: "t = take (length e) t @ ?t'" by simp
    define inner where "inner = (case ?t' of [] \<Rightarrow> None
          | c # cs \<Rightarrow> if c = CHR ''.'' then group_from alts alts cs else None)"
    show ?thesis
    proof (cases inner)
      case (Some r')
      then have r: "r = r'"
        using "2.prems"(1) unfolding group_from_match [OF m] inner_def [symmetric] by simp
      from Some obtain cs where cs: "?t' = CHR ''.'' # cs" "group_from alts alts cs = Some r'"
        unfolding inner_def by (auto split: list.splits if_splits)
      from "2.IH"(1) [OF m cs(1) refl cs(2) subset_refl]
      obtain g where g: "CHR ''.'' # cs = g @ r'" "ext_run alts g" "dollar_tail r'" by auto
      have "CHR ''.'' # t = (CHR ''.'' # take (length e) t @ g) @ r"
        using t cs(1) g(1) r by (metis append.assoc append_Cons)
      moreover have "ext_run alts (CHR ''.'' # take (length e) t @ g)"
        using ext_run_cons [OF e _ g(2)] m by simp
      ultimately show ?thesis using g(3) r by blast
    next
      case None
      show ?thesis
      proof (cases "?t' = [] \<or> ?t' = [LF]")
        case True
        then have r: "r = ?t'"
          using "2.prems"(1) None unfolding group_from_match [OF m] inner_def [symmetric]
          by auto
        have "CHR ''.'' # t = (CHR ''.'' # take (length e) t) @ r" using t r by simp
        moreover have "ext_run alts (CHR ''.'' # take (length e) t)"
          using ext_run_single [OF e] m by simp
        ultimately show ?thesis using True r unfolding dollar_tail_def by blast
      next
        case False
        then have "group_from alts es t = Some r"
          using "2.prems"(1) None unfolding group_from_match [OF m] inner_def [symmetric]
          by auto
        then show ?thesis
          using "2.IH"(2) [OF m None [unfolded inner_def] False] "2.prems"(2) by simp
      qed
    qed
  qed
qed

lemma group_from_complete:
  "t = e' @ t' \<Longrightarrow> e \<in> set todo \<Longrightarrow> lower e' = lower e \<Longrightarrow>
     dollar_tail t' \<or> (\<exists>g r. t' = g @ r \<and> ext_run alts g \<and> dollar_tail r) \<Longrightarrow>
     group_from alts todo t \<noteq> None"
proof (induction alts todo t arbitrary: e e' t' rule: group_from.induct)
  case (1 alts t)
  then show ?case by simp
next
  case (2 alts e0 es t)
  let ?t0 = "drop (length e0) t"
  have le: "length e' = length e" using "2.prems"(3) by (rule lower_length)
  have me: "length e \<le> length t \<and> lower (take (length e) t) = lower e"
    using "2.prems"(1,3) le by simp
  show ?case
  proof (cases "length e0 \<le> length t \<and> lower (take (length e0) t) = lower e0")
    case False
    then have "e \<noteq> e0" using me by auto
    then have "e \<in> set es" using "2.prems"(2) by simp
    then have "group_from alts es t \<noteq> None"
      using "2.IH"(3) [OF False "2.prems"(1) _ "2.prems"(3,4)] by simp
    then show ?thesis by (simp add: group_from_nomatch [OF False])
  next
    case m: True
    define inner where "inner = (case ?t0 of [] \<Rightarrow> None
          | c # cs \<Rightarrow> if c = CHR ''.'' then group_from alts alts cs else None)"
    show ?thesis
    proof (cases inner)
      case (Some r)
      then show ?thesis unfolding group_from_match [OF m] inner_def [symmetric] by simp
    next
      case None
      show ?thesis
      proof (cases "?t0 = [] \<or> ?t0 = [LF]")
        case True
        then show ?thesis
          using None unfolding group_from_match [OF m] inner_def [symmetric] by auto
      next
        case nd: False
        have "length e \<noteq> length e0"
        proof
          assume eq: "length e = length e0"
          then have t0: "?t0 = t'" using "2.prems"(1) le by simp
          from "2.prems"(4) nd t0 obtain g r where g: "t' = g @ r" "ext_run alts g" "dollar_tail r"
            unfolding dollar_tail_def by auto
          from g(2) obtain a x rest where x: "a \<in> set alts" "lower x = lower a"
            "g = CHR ''.'' # x @ rest" "rest = [] \<or> ext_run alts rest"
            by (cases rule: ext_run_cases) auto
          have cs: "?t0 = CHR ''.'' # (x @ rest @ r)" using t0 g(1) x(3) by simp
          have "dollar_tail (rest @ r) \<or> (\<exists>g r'. rest @ r = g @ r' \<and> ext_run alts g \<and> dollar_tail r')"
            using x(4) g(3) by auto
          then have "group_from alts alts (x @ rest @ r) \<noteq> None"
            using "2.IH"(1) [OF m cs refl refl x(1,2)] by simp
          then show False using None unfolding inner_def cs by simp
        qed
        then have "e \<noteq> e0" by auto
        then have "e \<in> set es" using "2.prems"(2) by simp
        then have "group_from alts es t \<noteq> None"
          using "2.IH"(2) [OF m None [unfolded inner_def] nd "2.prems"(1) _ "2.prems"(3,4)]
          by simp
        then show ?thesis
          using None nd unfolding group_from_match [OF m] inner_def [symmetric] by auto
      qed
    qed
  qed
qed

lemma ext_re_match_iff:
  "(ext_re_match alts t \<noteq> None) = (\<exists>g r. t = g @ r \<and> ext_run alts g \<and> dollar_tail r)"
proof
  assume "ext_re_match alts t \<noteq> None"
  then obtain cs r where t: "t = CHR ''.'' # cs" "group_from alts alts cs = Some r"
    by (auto simp: ext_re_match_def split: list.splits if_splits)
  from group_from_sound [OF t(2) subset_refl] t(1)
  show "\<exists>g r. t = g @ r \<and> ext_run alts g \<and> dollar_tail r" by auto
next
  assume "\<exists>g r. t = g @ r \<and> ext_run alts g \<and> dollar_tail r"
  then obtain g r where g: "t = g @ r" "ext_run alts g" "dollar_tail r" by blast
  from g(2) obtain a x rest where x: "a \<in> set alts" "lower x = lower a"
    "g = CHR ''.'' # x @ rest" "rest = [] \<or> ext_run alts rest"
    by (cases rule: ext_run_cases) auto
  have "dollar_tail (rest @ r) \<or> (\<exists>g r'. rest @ r = g @ r' \<and> ext_run alts g \<and> dollar_tail r')"
    using x(4) g(3) by auto
  then have "group_from alts alts (x @ rest @ r) \<noteq> None"
    using group_from_complete [OF refl x(1,2)] by simp
  then show "ext_re_match alts t \<noteq> None"
    using g(1) x(3) by (simp add: ext_re_match_def)
qed

lemma ext_re_match_sound:
  "ext_re_match alts t = Some r \<Longrightarrow> \<exists>g. t = g @ r \<and> ext_run alts g \<and> dollar_tail r"
proof -
  assume a: "ext_re_match alts t = Some r"
  then obtain cs where t: "t = CHR ''.'' # cs" "group_from alts alts cs = Some r"
    by (auto simp: ext_re_match_def split: list.splits if_splits)
  from group_from_sound [OF t(2) subset_refl] t(1) show ?thesis by auto
qed

text \<open>
  What the substitution does, in terms of the table alone: the text is cut at the
  leftmost position from which a run of extension groups reaches the end (or the final
  line feed, which is kept); if there is no such position the text is unchanged.
\<close>

lemma ext_re_sub_leftmost_run:
  "\<exists>p g r. stem = p @ g @ r \<and> ext_re_sub alts stem = p @ r
      \<and> ((g = [] \<and> r = []) \<or> (ext_run alts g \<and> dollar_tail r))
      \<and> (\<forall>k<length p. \<not> (\<exists>g' r'. drop k stem = g' @ r' \<and> ext_run alts g' \<and> dollar_tail r'))"
proof (induction stem)
  case Nil
  show ?case by simp
next
  case (Cons c cs)
  show ?case
  proof (cases "ext_re_match alts (c # cs)")
    case (Some r)
    from ext_re_match_sound [OF Some]
    obtain g where g: "c # cs = g @ r" "ext_run alts g" "dollar_tail r" by blast
    have a: "c # cs = [] @ g @ r" using g(1) by simp
    have b: "ext_re_sub alts (c # cs) = [] @ r" using Some by simp
    have d: "(g = [] \<and> r = []) \<or> (ext_run alts g \<and> dollar_tail r)" using g by simp
    have e: "\<forall>k<length ([] :: string).
        \<not> (\<exists>g' r'. drop k (c # cs) = g' @ r' \<and> ext_run alts g' \<and> dollar_tail r')" by simp
    from a b d e show ?thesis by blast
  next
    case None
    from Cons obtain p g r where ih: "cs = p @ g @ r" "ext_re_sub alts cs = p @ r"
      "(g = [] \<and> r = []) \<or> (ext_run alts g \<and> dollar_tail r)"
      "\<forall>k<length p. \<not> (\<exists>g' r'. drop k cs = g' @ r' \<and> ext_run alts g' \<and> dollar_tail r')"
      by blast
    have n0: "\<not> (\<exists>g' r'. c # cs = g' @ r' \<and> ext_run alts g' \<and> dollar_tail r')"
      using None ext_re_match_iff [of alts "c # cs"] by simp
    have "\<forall>k<length (c # p). \<not> (\<exists>g' r'. drop k (c # cs) = g' @ r' \<and> ext_run alts g' \<and> dollar_tail r')"
    proof (intro allI impI)
      fix k assume "k < length (c # p)"
      then show "\<not> (\<exists>g' r'. drop k (c # cs) = g' @ r' \<and> ext_run alts g' \<and> dollar_tail r')"
        using n0 ih(4) by (cases k) auto
    qed
    moreover have "c # cs = (c # p) @ g @ r" using ih(1) by simp
    moreover have "ext_re_sub alts (c # cs) = (c # p) @ r" using ih(2) None by simp
    ultimately show ?thesis using ih(3) by blast
  qed
qed

lemma build_ext_regex_order:
  "sorted (map (\<lambda>e. - int (length e)) (build_ext_regex exts))
   \<and> distinct (build_ext_regex exts) \<and> set (build_ext_regex exts) = set exts"
  unfolding build_ext_regex_def by simp

lemma process_file_backup: "process_file conv_defaults [Line 0 ''backup.tar.gz''] = [''backup'']"
  unfolding process_file_def process_file_step_def conv_defaults_def
  apply (simp only: conv_options.simps option.case build_ext_regex_DEFAULT_EXTS fold_simps)
  apply code_simp
  done

lemma remove_extensions_composite:
  "remove_extensions ''old.zip/site.tar.gz'' (build_ext_regex DEFAULT_EXTS) = ''old.zip/site''"
  unfolding build_ext_regex_DEFAULT_EXTS by code_simp

lemma split_on_no_sep: "sep \<notin> set s \<Longrightarrow> split_on sep s = [s]"
  by (induction s) auto

text \<open>
  A file directly under the root: the parent of \<open>/seg\<close> is the root \<open>/\<close>, and when the
  substitution changes the segment the parent is joined to the new stem with a further
  slash.
\<close>

lemma remove_extensions_root_file:
  assumes "seg \<noteq> []" and "seg \<noteq> ''.''" and "CHR ''/'' \<notin> set seg"
    and "ext_re_sub alts seg \<noteq> seg"
  shows "remove_extensions (CHR ''/'' # seg) alts = ''//'' @ ext_re_sub alts seg"
proof -
  have sp: "split_on CHR ''/'' (CHR ''/'' # seg) = [[], seg]"
    using assms(3) by (simp add: split_on_no_sep)
  have parts: "posix_parts (CHR ''/'' # seg) = [seg]"
    unfolding posix_parts_def sp using assms(1,2) by simp
  have "hd seg \<noteq> CHR ''/''" using assms(1,3) by (cases seg) auto
  then have root: "posix_root (CHR ''/'' # seg) = ''/''"
    using assms(1) by (cases seg) (auto simp: posix_root_def numeral_2_eq_2 numeral_3_eq_3)
  have stem: "posix_name (CHR ''/'' # seg) = seg" by (simp add: posix_name_def parts)
  have parent: "posix_parent (CHR ''/'' # seg) = ''/''"
    by (simp add: posix_parent_def parts root posix_str_def)
  show ?thesis
    using assms(4) by (simp add: remove_extensions_def stem parent Let_def)
qed

text \<open>
  Claim C9. The pattern lists the distinct extensions by descending length
  (\<open>build_ext_regex_order\<close>), the substitution removes the leftmost run of \<open>.ext\<close> groups
  that reaches the end of the final segment (\<open>ext_re_sub_leftmost_run\<close>), and for a
  relative path of plain segments the final segment alone is changed
  (\<open>remove_extensions_plain_path\<close>); \<open>backup.tar.gz\<close> gives \<open>backup\<close>
  (\<open>process_file_backup\<close>). For a file directly under the root the result is not the
  name with the extensions removed from its final segment: \<open>/index.php\<close> gives \<open>//index\<close>
  and not \<open>/index\<close>, in \<open>remove_extensions\<close> and in the output of \<open>process_file\<close> with the
  default options, while \<open>/index\<close>, where nothing is removed, stays \<open>/index\<close>.
\<close>

theorem root_file_gains_slash:
  "remove_extensions ''/index.php'' (build_ext_regex DEFAULT_EXTS) = ''//index''
   \<and> process_file conv_defaults [Line 0 ''/index.php''] = [''//index'']
   \<and> remove_extensions ''/index'' (build_ext_regex DEFAULT_EXTS) = ''/index''"
proof -
  have a: "remove_extensions ''/index.php'' (build_ext_regex DEFAULT_EXTS) = ''//index''"
    "remove_extensions ''/index'' (build_ext_regex DEFAULT_EXTS) = ''/index''"
    unfolding build_ext_regex_DEFAULT_EXTS by code_simp+
  have b: "process_file conv_defaults [Line 0 ''/index.php''] = [''//index'']"
    unfolding process_file_def process_file_step_def conv_defaults_def
    apply (simp only: conv_options.simps option.case build_ext_regex_DEFAULT_EXTS fold_simps)
    apply code_simp
    done
  from a b show ?thesis by simp
qed

section \<open>Comments and blank lines: claim C3\<close>

lemma rev_dropWhile_rev_keep:
  assumes "\<not> Q c"
  shows "rev (dropWhile Q (rev (ws @ c # rest))) = ws @ c # rev (dropWhile Q (rev rest))"
  using assms by (simp add: dropWhile_append3)

lemma set_rstrip_newlines: "set (rstrip_newlines raw) \<subseteq> set raw"
  unfolding rstrip_newlines_def using set_dropWhileD [of _ _ "rev raw"] by auto

lemma isspace_LF_CR: "isspace LF" "isspace CR"
  by (simp_all add: isspace_def LF_def CR_def Let_def)

lemma rstrip_newlines_first_nonspace:
  assumes "dropWhile isspace raw = c # rest"
  shows "rstrip_newlines raw
           = takeWhile isspace raw @ c # rev (dropWhile (\<lambda>c. c = LF \<or> c = CR) (rev rest))"
proof -
  have nc: "\<not> isspace c" using assms by (rule dropWhile_isspace_Cons)
  then have q: "\<not> (c = LF \<or> c = CR)" using isspace_LF_CR by auto
  have "raw = takeWhile isspace raw @ c # rest" using assms by (metis takeWhile_dropWhile_id)
  then have "rstrip_newlines raw
      = rev (dropWhile (\<lambda>c. c = LF \<or> c = CR) (rev (takeWhile isspace raw @ c # rest)))"
    by (simp add: rstrip_newlines_def)
  then show ?thesis using rev_dropWhile_rev_keep [of "\<lambda>c. c = LF \<or> c = CR" c, OF q] by simp
qed

lemma dropWhile_isspace_takeWhile_app:
  "dropWhile isspace (takeWhile isspace raw @ t) = dropWhile isspace t"
  by (rule dropWhile_append2) (auto dest: set_takeWhileD)

lemma strip_Nil_all_space:
  assumes "strip raw = []"
  shows "\<forall>x\<in>set raw. isspace x"
proof (cases "dropWhile isspace raw")
  case Nil
  then show ?thesis by (simp add: dropWhile_eq_Nil_conv)
next
  case (Cons c r)
  then show ?thesis using strip_starts [OF Cons] assms by simp
qed

lemma all_space_strip: "\<forall>x\<in>set p. isspace x \<Longrightarrow> strip p = []"
  by (rule strip_all_space) (simp add: dropWhile_eq_Nil_conv)

lemma candidate_of_blank:
  assumes "strip raw = []"
  shows "candidate_of_line nfkc raw = None"
proof -
  have sp: "\<forall>x\<in>set (rstrip_newlines raw). isspace x"
    using strip_Nil_all_space [OF assms] set_rstrip_newlines [of raw] by blast
  then have a: "strip (rstrip_newlines raw) = []" by (rule all_space_strip)
  have b: "dropWhile isspace (rstrip_newlines raw) = []" using sp by (simp add: dropWhile_eq_Nil_conv)
  have c: "\<not> COMMENT_RE_match (lstrip (rstrip_newlines raw))"
    by (simp add: COMMENT_RE_match_def lstrip_def b del: dropWhile_eq_Nil_conv)
  have d: "strip [] = []" by (simp add: strip_def rstrip_def lstrip_def)
  show ?thesis
    unfolding candidate_of_line_def Let_def a
    using c by (simp add: URL_SCHEME_HOST_sub_def d)
qed

lemma candidate_of_hash:
  assumes "first_nonspace raw = Some CHR ''#''"
  shows "candidate_of_line nfkc raw = None"
proof -
  obtain rest where d: "dropWhile isspace raw = CHR ''#'' # rest"
    using assms by (auto simp: first_nonspace_def split: list.splits)
  have r: "rstrip_newlines raw
           = takeWhile isspace raw @ CHR ''#'' # rev (dropWhile (\<lambda>c. c = LF \<or> c = CR) (rev rest))"
    by (rule rstrip_newlines_first_nonspace [OF d])
  have ns: "\<not> isspace CHR ''#''" using d by (rule dropWhile_isspace_Cons)
  have "COMMENT_RE_match (lstrip (rstrip_newlines raw))"
    unfolding r lstrip_def COMMENT_RE_match_def dropWhile_isspace_takeWhile_app
    using ns by simp
  then show ?thesis unfolding candidate_of_line_def Let_def by simp
qed

lemma find_str_first:
  "find_str sub s = Some i \<Longrightarrow>
     take (length sub) (drop i s) = sub \<and> (\<forall>j<i. take (length sub) (drop j s) \<noteq> sub)"
proof (induction s arbitrary: i)
  case Nil
  then show ?case by (auto split: if_splits)
next
  case (Cons c cs)
  show ?case
  proof (cases "take (length sub) (c # cs) = sub")
    case True
    then show ?thesis using Cons.prems by simp
  next
    case False
    then obtain k where k: "find_str sub cs = Some k" "i = Suc k" using Cons.prems by auto
    have ih: "take (length sub) (drop k cs) = sub \<and> (\<forall>j<k. take (length sub) (drop j cs) \<noteq> sub)"
      by (rule Cons.IH [OF k(1)])
    have "\<forall>j<Suc k. take (length sub) (drop j (c # cs)) \<noteq> sub"
    proof (intro allI impI)
      fix j assume "j < Suc k"
      then show "take (length sub) (drop j (c # cs)) \<noteq> sub"
        using False ih by (cases j) auto
    qed
    then show ?thesis using ih k(2) by simp
  qed
qed

lemma find_str_None: "(find_str sub s = None) = (\<not> contains sub s)"
  by (induction s) auto

lemma strip_comment_api_is_take:
  "strip_comment_api raw = [] \<or> (\<exists>n. strip_comment_api raw = take n (lstrip_BOM raw))"
proof -
  have "\<exists>n. lstrip_BOM raw = take n (lstrip_BOM raw)"
    by (rule exI [of _ "length (lstrip_BOM raw)"]) simp
  then show ?thesis by (auto simp: strip_comment_api_def Let_def split: option.splits)
qed

lemma process_lines_rest_blank: "strip line = [] \<Longrightarrow> process_lines_rest aopts nfkc line st = st"
  by (simp add: process_lines_rest_def)

lemma process_lines_step_blank:
  assumes "strip (lstrip_BOM raw) = []"
    and "bom_count raw = 0 \<or> strip_comments aopts"
  shows "process_lines_step aopts nfkc raw st = Some st"
proof -
  obtain k s where raw: "raw = Line k s" by (cases raw)
  define line where "line = rstrip_newlines s"
  have s: "strip s = []" using assms(1) raw by simp
  have sp: "\<forall>x\<in>set line. isspace x"
    using strip_Nil_all_space [OF s] set_rstrip_newlines [of s] unfolding line_def by blast
  have a: "strip line = []" using sp by (rule all_space_strip)
  have "strip (strip_comment_api (Line k line)) = []"
  proof (rule all_space_strip)
    show "\<forall>x\<in>set (strip_comment_api (Line k line)). isspace x"
    proof (cases "strip_comment_api (Line k line) = []")
      case True
      then show ?thesis by simp
    next
      case False
      then obtain n where "strip_comment_api (Line k line) = take n line"
        using strip_comment_api_is_take [of "Line k line"] by auto
      then show ?thesis using sp set_take_subset [of n line] by auto
    qed
  qed
  then have b: "process_lines_rest aopts nfkc (strip_comment_api (Line k line)) st = st"
    by (rule process_lines_rest_blank)
  have c: "process_lines_rest aopts nfkc line st = st"
    using a by (rule process_lines_rest_blank)
  have d: "k = 0 \<or> strip_comments aopts" using assms(2) raw by simp
  show ?thesis
    unfolding process_lines_step_def raw raw_line.sel line_def [symmetric] Let_def
    using b c d by auto
qed

lemma LF_CR_not_slash: "\<not> (CHR ''/'' = LF \<or> CHR ''/'' = CR)"
proof -
  have "\<not> isspace CHR ''/''" by (simp add: isspace_def Let_def)
  then show ?thesis using isspace_LF_CR by auto
qed

lemma rstrip_newlines_double_slash:
  assumes "dropWhile isspace raw = CHR ''/'' # CHR ''/'' # rest"
  shows "\<exists>t. dropWhile isspace (rstrip_newlines raw) = CHR ''/'' # CHR ''/'' # t"
proof -
  have ns: "\<not> isspace CHR ''/''" using assms by (rule dropWhile_isspace_Cons)
  have "rev (dropWhile (\<lambda>c. c = LF \<or> c = CR) (rev (CHR ''/'' # rest)))
          = CHR ''/'' # rev (dropWhile (\<lambda>c. c = LF \<or> c = CR) (rev rest))"
    using rev_dropWhile_rev_keep [of "\<lambda>c. c = LF \<or> c = CR" "CHR ''/''" "[]" rest]
      LF_CR_not_slash by simp
  then show ?thesis
    unfolding rstrip_newlines_first_nonspace [OF assms] dropWhile_isspace_takeWhile_app
    using ns by simp
qed

lemma process_lines_step_comment:
  assumes "strip_comments aopts"
    and "take 1 (lstrip (lstrip_BOM raw)) = ''#'' \<or> take 2 (lstrip (lstrip_BOM raw)) = ''//''"
  shows "process_lines_step aopts nfkc raw st = Some st"
proof -
  obtain k s where raw: "raw = Line k s" by (cases raw)
  define line where "line = rstrip_newlines s"
  have h: "take 1 (lstrip s) = ''#'' \<or> take 2 (lstrip s) = ''//''" using assms(2) raw by simp
  have "COMMENT_RE_api_match line"
    using h
  proof
    assume "take 1 (lstrip s) = ''#''"
    then obtain rest where d: "dropWhile isspace s = CHR ''#'' # rest"
      by (cases "dropWhile isspace s") (auto simp: lstrip_def)
    have ns: "\<not> isspace CHR ''#''" using d by (rule dropWhile_isspace_Cons)
    show ?thesis
      unfolding line_def COMMENT_RE_api_match_def Let_def
        rstrip_newlines_first_nonspace [OF d] dropWhile_isspace_takeWhile_app
      using ns by simp
  next
    assume "take 2 (lstrip s) = ''//''"
    then obtain rest where d: "dropWhile isspace s = CHR ''/'' # CHR ''/'' # rest"
      by (cases "dropWhile isspace s"; cases "tl (dropWhile isspace s)")
         (auto simp: lstrip_def)
    from rstrip_newlines_double_slash [OF d] show ?thesis
      unfolding line_def COMMENT_RE_api_match_def Let_def by auto
  qed
  then have "strip_comment_api (Line k line) = []" by (simp add: strip_comment_api_def)
  then show ?thesis
    using assms(1) unfolding process_lines_step_def raw raw_line.sel line_def [symmetric] Let_def
    by simp
qed

text \<open>
  Claim C3, as amended. In the directory pipeline a line is dropped if it is empty after
  trimming or if its first character that is not white space is \<open>#\<close>; \<open>//\<close> is no comment
  marker there. In the API normaliser a line that is blank after its leading byte-order
  marks is dropped, if it has no mark or comment stripping is on; with comment stripping
  on so is a line whose first characters after the marks and white space are \<open>#\<close> or
  \<open>//\<close>. Any other line is cut by \<open>strip_comment\<close>, which first removes the leading
  byte-order marks: the rest is cut at the first occurrence of a space followed by \<open>#\<close> if
  there is one, else at the first occurrence of a space followed by \<open>//\<close>, and when it has
  neither the result is the line without its marks (so \<open>http://\<close> is unaffected).
\<close>

theorem comment_and_blank_lines:
  "(strip raw = [] \<longrightarrow> main_step opts nfkc raw st = st)
   \<and> (first_nonspace raw = Some CHR ''#'' \<longrightarrow> main_step opts nfkc raw st = st)
   \<and> (strip (lstrip_BOM l) = [] \<and> (bom_count l = 0 \<or> strip_comments aopts)
        \<longrightarrow> process_lines_step aopts nfkc l st = Some st)
   \<and> (strip_comments aopts
        \<and> (take 1 (lstrip (lstrip_BOM l)) = ''#'' \<or> take 2 (lstrip (lstrip_BOM l)) = ''//'')
        \<longrightarrow> process_lines_step aopts nfkc l st = Some st)
   \<and> (\<not> COMMENT_RE_api_match (lstrip_BOM l) \<and> contains '' #'' (lstrip_BOM l) \<longrightarrow>
        (\<exists>i. strip_comment_api l = take i (lstrip_BOM l)
             \<and> take 2 (drop i (lstrip_BOM l)) = '' #''
             \<and> (\<forall>j<i. take 2 (drop j (lstrip_BOM l)) \<noteq> '' #'')))
   \<and> (\<not> COMMENT_RE_api_match (lstrip_BOM l) \<and> \<not> contains '' #'' (lstrip_BOM l)
        \<and> contains '' //'' (lstrip_BOM l) \<longrightarrow>
        (\<exists>i. strip_comment_api l = take i (lstrip_BOM l)
             \<and> take 3 (drop i (lstrip_BOM l)) = '' //''
             \<and> (\<forall>j<i. take 3 (drop j (lstrip_BOM l)) \<noteq> '' //'')))
   \<and> (\<not> COMMENT_RE_api_match (lstrip_BOM l) \<and> \<not> contains '' #'' (lstrip_BOM l)
        \<and> \<not> contains '' //'' (lstrip_BOM l) \<longrightarrow>
        strip_comment_api l = lstrip_BOM l)"
proof -
  define line where "line = lstrip_BOM l"
  have d1: "strip raw = [] \<longrightarrow> main_step opts nfkc raw st = st"
    by (simp add: main_step_def candidate_of_blank)
  have d2: "first_nonspace raw = Some CHR ''#'' \<longrightarrow> main_step opts nfkc raw st = st"
    by (simp add: main_step_def candidate_of_hash)
  have a1: "strip line = [] \<and> (bom_count l = 0 \<or> strip_comments aopts)
        \<longrightarrow> process_lines_step aopts nfkc l st = Some st"
    unfolding line_def using process_lines_step_blank [of l aopts nfkc st] by blast
  have a2: "strip_comments aopts \<and> (take 1 (lstrip line) = ''#'' \<or> take 2 (lstrip line) = ''//'')
        \<longrightarrow> process_lines_step aopts nfkc l st = Some st"
    unfolding line_def using process_lines_step_comment [of aopts l nfkc st] by blast
  have a3: "\<not> COMMENT_RE_api_match line \<and> contains '' #'' line \<longrightarrow>
        (\<exists>i. strip_comment_api l = take i line \<and> take 2 (drop i line) = '' #''
             \<and> (\<forall>j<i. take 2 (drop j line) \<noteq> '' #''))"
  proof
    assume h: "\<not> COMMENT_RE_api_match line \<and> contains '' #'' line"
    then obtain i where i: "find_str '' #'' line = Some i"
      using find_str_None [of "'' #''" line] by (cases "find_str '' #'' line") auto
    have "strip_comment_api l = take i line"
      using h i by (simp add: strip_comment_api_def line_def [symmetric])
    with find_str_first [OF i] show "\<exists>i. strip_comment_api l = take i line
        \<and> take 2 (drop i line) = '' #'' \<and> (\<forall>j<i. take 2 (drop j line) \<noteq> '' #'')"
      by (intro exI [of _ i]) (simp add: numeral_2_eq_2 numeral_3_eq_3)
  qed
  have a4: "\<not> COMMENT_RE_api_match line \<and> \<not> contains '' #'' line \<and> contains '' //'' line \<longrightarrow>
        (\<exists>i. strip_comment_api l = take i line \<and> take 3 (drop i line) = '' //''
             \<and> (\<forall>j<i. take 3 (drop j line) \<noteq> '' //''))"
  proof
    assume h: "\<not> COMMENT_RE_api_match line \<and> \<not> contains '' #'' line \<and> contains '' //'' line"
    then have n: "find_str '' #'' line = None" by (simp add: find_str_None)
    from h obtain i where i: "find_str '' //'' line = Some i"
      using find_str_None [of "'' //''" line] by (cases "find_str '' //'' line") auto
    have "strip_comment_api l = take i line"
      using h i n by (simp add: strip_comment_api_def line_def [symmetric])
    with find_str_first [OF i] show "\<exists>i. strip_comment_api l = take i line
        \<and> take 3 (drop i line) = '' //'' \<and> (\<forall>j<i. take 3 (drop j line) \<noteq> '' //'')"
      by (intro exI [of _ i]) (simp add: numeral_2_eq_2 numeral_3_eq_3)
  qed
  have a5: "\<not> COMMENT_RE_api_match line \<and> \<not> contains '' #'' line \<and> \<not> contains '' //'' line \<longrightarrow>
        strip_comment_api l = line"
    by (simp add: strip_comment_api_def line_def [symmetric] find_str_None [symmetric])
  from d1 d2 a1 a2 a3 a4 a5 show ?thesis unfolding line_def by blast
qed

theorem comment_and_blank_lines_witness:
  "first_nonspace ''  # note'' = Some CHR ''#''
   \<and> main_step default_options nfkc_ascii ''  # note'' empty_output = empty_output
   \<and> strip ''   '' = []
   \<and> main_step default_options nfkc_ascii ''   '' empty_output = empty_output
   \<and> process_lines_step api_defaults nfkc_ascii (Line 1 ''   '') empty_output = Some empty_output
   \<and> strip_comments api_defaults \<and> take 2 (lstrip '' // note'') = ''//''
   \<and> process_lines_step api_defaults nfkc_ascii (Line 1 '' // note'') empty_output
       = Some empty_output
   \<and> strip_comment_api (Line 0 ''admin #old'') = ''admin''
   \<and> strip_comment_api (Line 0 ''admin //old'') = ''admin''
   \<and> strip_comment_api (Line 0 ''http://x'') = ''http://x''
   \<and> strip_comment_api (Line 1 ''admin'') = ''admin''
   \<and> strip_comment_api (Line 0 ''admin //old #older'') = ''admin //old''
   \<and> process_lines api_defaults nfkc_ascii
        [Line 1 ''# list'', Line 0 ''admin #old'', Line 0 ''   '', Line 0 ''http://x'',
         Line 2 ''users //all'']
       = Some [''admin'', ''http:/x'', ''users'']"
proof -
  have a: "first_nonspace ''  # note'' = Some CHR ''#''" "strip ''   '' = []"
    "strip_comments api_defaults" "take 2 (lstrip '' // note'') = ''//''"
    by code_simp+
  have b: "strip_comment_api (Line 0 ''admin #old'') = ''admin''"
    "strip_comment_api (Line 0 ''admin //old'') = ''admin''"
    "strip_comment_api (Line 0 ''http://x'') = ''http://x''"
    "strip_comment_api (Line 1 ''admin'') = ''admin''"
    "strip_comment_api (Line 0 ''admin //old #older'') = ''admin //old''"
    by code_simp+
  have p: "process_lines api_defaults nfkc_ascii
        [Line 1 ''# list'', Line 0 ''admin #old'', Line 0 ''   '', Line 0 ''http://x'',
         Line 2 ''users //all'']
       = Some [''admin'', ''http:/x'', ''users'']"
    by code_simp
  from comment_and_blank_lines [of "''  # note''" default_options nfkc_ascii empty_output] a(1)
  have c: "main_step default_options nfkc_ascii ''  # note'' empty_output = empty_output"
    by blast
  from comment_and_blank_lines [of "''   ''" default_options nfkc_ascii empty_output] a(2)
  have d: "main_step default_options nfkc_ascii ''   '' empty_output = empty_output"
    by blast
  from comment_and_blank_lines [of _ _ nfkc_ascii empty_output "Line 1 ''   ''" api_defaults]
    a(2,3)
  have e: "process_lines_step api_defaults nfkc_ascii (Line 1 ''   '') empty_output
             = Some empty_output"
    by simp
  from comment_and_blank_lines [of _ _ nfkc_ascii empty_output "Line 1 '' // note''" api_defaults]
    a(3,4)
  have f: "process_lines_step api_defaults nfkc_ascii (Line 1 '' // note'') empty_output
             = Some empty_output"
    by simp
  from a b c d e f p show ?thesis by simp
qed

text \<open>
  In the directory pipeline the line \<open>//admin\<close> starts with \<open>//\<close> and is not dropped: its
  slashes are trimmed and \<open>admin\<close> is emitted. The line \<open>foo //bar\<close> is not cut at the
  \<open>//\<close> that follows the space.
\<close>

theorem double_slash_line_kept_counterexample:
  "take 2 (lstrip ''//admin'') = ''//''
   \<and> main_output default_options nfkc_ascii [''//admin''] = [''admin'']
   \<and> contains '' //'' ''foo //bar''
   \<and> main_output default_options nfkc_ascii [''foo //bar''] = [''foo%20/bar'']"
  by code_simp

section \<open>Feeding the output back: claim C4\<close>

lemma of_char_LF: "(of_char LF :: nat) = 10" and of_char_CR: "(of_char CR :: nat) = 13"
  by (simp_all add: LF_def CR_def)

lemma is_safe_range:
  "is_safe c \<Longrightarrow> 45 \<le> (of_char c :: nat) \<and> (of_char c :: nat) \<le> 126
       \<and> (of_char c :: nat) \<noteq> 58 \<and> (of_char c :: nat) \<noteq> 63"
  by (auto simp: is_safe_def is_alnum_def is_letter_def is_digit_def Let_def)

lemma char_eq_code: "(c = d) = ((of_char c :: nat) = of_char d)"
  by auto

lemma is_safe_facts:
  assumes "is_safe c"
  shows "c \<noteq> LF" "c \<noteq> CR" "\<not> isspace c" "c \<noteq> CHR ''#''" "c \<noteq> CHR ''?''" "c \<noteq> CHR '':''"
    "\<not> category_C c" "c \<noteq> CHR ''%''" "quote_char c = [c]"
  using is_safe_range [OF assms] assms
  by (auto simp: char_eq_code [of c] of_char_LF of_char_CR isspace_def category_C_def Let_def
        quote_char_def)

lemma lower_char_code:
  "(of_char (lower_char c) :: nat) =
     (let n = of_char c in
      if (65 \<le> n \<and> n \<le> 90) \<or> (192 \<le> n \<and> n \<le> 222 \<and> n \<noteq> 215) then n + 32 else n)"
  by (auto simp: lower_char_def Let_def)

lemma lower_char_slash: "(lower_char c = CHR ''/'') = (c = CHR ''/'')"
  and lower_char_dot: "(lower_char c = CHR ''.'') = (c = CHR ''.'')"
  by (auto simp: char_eq_code [of _ "CHR ''/''"] char_eq_code [of _ "CHR ''.''"]
        lower_char_code Let_def)

lemma lower_char_idem: "lower_char (lower_char c) = lower_char c"
  unfolding char_eq_code [of "lower_char (lower_char c)"]
  by (subst lower_char_code) (auto simp: lower_char_code Let_def)

lemma quote_char_pct: "\<not> is_safe c \<Longrightarrow> CHR ''%'' \<in> set (quote_char c)"
  by (auto simp: quote_char_def quote_byte_def Let_def)

lemma printable_not_C: "32 \<le> (of_char c :: nat) \<Longrightarrow> (of_char c :: nat) \<le> 126 \<Longrightarrow> \<not> category_C c"
  by (auto simp: category_C_def Let_def)

lemma quote_no_pct:
  "CHR ''%'' \<notin> set (percent_encode_keep_slash s) \<Longrightarrow>
     list_all is_safe s \<and> percent_encode_keep_slash s = s"
proof (induction s)
  case Nil
  show ?case by (simp add: percent_encode_keep_slash_def)
next
  case (Cons c cs)
  have s: "is_safe c" using Cons.prems quote_char_pct [of c]
    by (auto simp: percent_encode_keep_slash_def)
  have "CHR ''%'' \<notin> set (percent_encode_keep_slash cs)"
    using Cons.prems by (simp add: percent_encode_keep_slash_def)
  then show ?case using Cons.IH s is_safe_facts(9) [OF s]
    by (simp add: percent_encode_keep_slash_def)
qed

lemma quote_safe: "list_all is_safe s \<Longrightarrow> percent_encode_keep_slash s = s"
  by (induction s) (simp_all add: percent_encode_keep_slash_def is_safe_facts(9))

lemma lower_idem: "lower (lower s) = lower s"
  by (simp add: lower_def lower_char_idem)

lemma contains_map2:
  assumes "\<And>c. (f c = a) = (c = a)" and "\<And>c. (f c = b) = (c = b)"
  shows "contains [a, b] (map f s) = contains [a, b] s"
proof (induction s)
  case Nil
  show ?case by simp
next
  case (Cons c cs)
  have "(take 2 (map f (c # cs)) = [a, b]) = (take 2 (c # cs) = [a, b])"
    using assms by (cases cs) auto
  then show ?case using Cons by (simp add: numeral_2_eq_2)
qed

lemma lfi_here_lower: "lfi_here (lower t) = lfi_here t"
  by (auto simp: lfi_here_def lower_def lower_char_dot lower_char_slash split: list.splits)

lemma lfi_after_slash_lower: "lfi_after_slash (lower s) = lfi_after_slash s"
proof (induction s)
  case Nil
  show ?case by (simp add: lower_def)
next
  case (Cons c cs)
  have "lower (c # cs) = lower_char c # lower cs" by (simp add: lower_def)
  then show ?case using Cons lfi_here_lower [of cs] by (simp add: lower_char_slash)
qed

lemma traversal_indicator_lower: "traversal_indicator (lower s) = traversal_indicator s"
  unfolding traversal_indicator_def LFI_INDICATORS_search_iff [symmetric] LFI_INDICATORS_search_def
  using contains_map2 [of lower_char "CHR ''.''" "CHR ''.''" s]
    contains_map2 [of lower_char "CHR ''.''" "CHR ''/''" s]
  by (simp add: lower_def [symmetric] lower_char_dot lower_char_slash lfi_here_lower
        lfi_after_slash_lower)

lemma contains_slashes_lower: "contains ''//'' (lower s) = contains ''//'' s"
  using contains_map2 [of lower_char "CHR ''/''" "CHR ''/''" s]
  by (simp add: lower_def [symmetric] lower_char_slash)

lemma take1_lower: "(take 1 (lower s) = [a]) = (take 1 s = [a])" if "\<And>c. (lower_char c = a) = (c = a)"
  using that by (cases s) (auto simp: lower_def)

lemma last_lower: "s \<noteq> [] \<Longrightarrow> last (lower s) = lower_char (last s)"
  by (simp add: lower_def last_map)

lemma set_strip: "set (strip x) \<subseteq> set x"
proof -
  have "set (strip x) \<subseteq> set (rev (dropWhile isspace (rev x)))"
    unfolding strip_def lstrip_def rstrip_def by (auto dest: set_dropWhileD)
  also have "\<dots> \<subseteq> set x" using set_dropWhileD [of _ isspace "rev x"] by auto
  finally show ?thesis .
qed

lemma set_URL_SCHEME_HOST_sub: "set (URL_SCHEME_HOST_sub s) \<subseteq> set s"
proof (cases s)
  case Nil
  then show ?thesis by (simp add: URL_SCHEME_HOST_sub_def)
next
  case (Cons c cs)
  have "set (dropWhile (\<lambda>x. x \<noteq> CHR ''/'') (drop 3 (dropWhile is_scheme_char cs))) \<subseteq> set cs"
    by (meson set_dropWhileD in_set_dropD subsetI)
  then show ?thesis using Cons by (auto simp: URL_SCHEME_HOST_sub_def Let_def)
qed

lemma set_QUERY_FRAGMENT_sub: "set (QUERY_FRAGMENT_sub s) \<subseteq> set s"
  by (induction s) auto

lemma trim_slashes:
  assumes "t = rev (dropWhile (\<lambda>c. c = CHR ''/'') (rev (dropWhile (\<lambda>c. c = CHR ''/'') x)))"
    and "t \<noteq> []"
  shows "take 1 t \<noteq> ''/'' \<and> last t \<noteq> CHR ''/'' \<and> set t \<subseteq> set x"
proof -
  let ?sl = "\<lambda>c. c = CHR ''/''"
  define y where "y = dropWhile ?sl x"
  have t: "t = rev (dropWhile ?sl (rev y))" using assms(1) by (simp add: y_def)
  have "y = rev (takeWhile ?sl (rev y) @ dropWhile ?sl (rev y))"
    by (simp only: takeWhile_dropWhile_id rev_rev_ident)
  then have y: "y = t @ rev (takeWhile ?sl (rev y))" unfolding t by (simp only: rev_append)
  have yne: "y \<noteq> []" using y assms(2) by auto
  have "hd y \<noteq> CHR ''/''" using hd_dropWhile [of ?sl x] yne unfolding y_def by simp
  moreover have "hd y = hd t" using y assms(2) by (metis hd_append2)
  ultimately have h: "take 1 t \<noteq> ''/''" using assms(2) by (cases t) auto
  have dne: "dropWhile ?sl (rev y) \<noteq> []" using t assms(2) by auto
  have "hd (dropWhile ?sl (rev y)) \<noteq> CHR ''/''" using hd_dropWhile [OF dne] by simp
  moreover have "last t = hd (dropWhile ?sl (rev y))" unfolding t using dne by (simp add: last_rev)
  ultimately have l: "last t \<noteq> CHR ''/''" by simp
  have "set t \<subseteq> set y" using y by (metis set_append Un_upper1)
  moreover have "set y \<subseteq> set x" unfolding y_def by (auto dest: set_dropWhileD)
  ultimately show ?thesis using h l by blast
qed

lemma collapse_slashes_props:
  "set (collapse_slashes x) \<subseteq> set x \<and> (x \<noteq> [] \<longrightarrow> collapse_slashes x \<noteq> []
      \<and> hd (collapse_slashes x) = hd x \<and> last (collapse_slashes x) = last x)
    \<and> \<not> contains ''//'' (collapse_slashes x)"
proof (induction x rule: collapse_slashes.induct)
  case 1
  show ?case by simp
next
  case (2 c)
  show ?case by simp
next
  case (3 c d cs)
  show ?case
  proof (cases "c = CHR ''/'' \<and> d = CHR ''/''")
    case True
    then show ?thesis using 3 by auto
  next
    case False
    then have IH: "set (collapse_slashes (d # cs)) \<subseteq> set (d # cs)"
      "collapse_slashes (d # cs) \<noteq> []" "hd (collapse_slashes (d # cs)) = d"
      "last (collapse_slashes (d # cs)) = last (d # cs)"
      "\<not> contains ''//'' (collapse_slashes (d # cs))"
      using 3 by auto
    obtain r where r: "collapse_slashes (d # cs) = d # r"
      using IH(2,3) by (cases "collapse_slashes (d # cs)") auto
    have cs: "collapse_slashes (c # d # cs) = c # d # r"
      by (cases "c = CHR ''/''"; cases "d = CHR ''/''") (use False r in auto)
    have "\<not> contains ''//'' (c # d # r)" using IH(5) False unfolding r by auto
    then show ?thesis unfolding cs using IH(1,4) r by auto
  qed
qed

lemma collapse_slashes_id: "\<not> contains ''//'' x \<Longrightarrow> collapse_slashes x = x"
  by (induction x rule: collapse_slashes.induct) auto

lemma printable_iff: "printable s = (\<forall>c\<in>set s. 32 \<le> (of_char c :: nat) \<and> (of_char c :: nat) \<le> 126)"
  by (simp add: printable_def list_all_iff)

lemma normalize_and_map_printable:
  assumes "printable x" and "nfkc x = x"
  shows "normalize_and_map nfkc x = x"
  using assms printable_not_C
  by (auto simp: normalize_and_map_def translate_HOMOGLYPH_MAP_def printable_iff filter_id_conv)

lemma candidate_normal_form:
  assumes "printable (rstrip_newlines raw)" and "\<forall>t. printable t \<longrightarrow> nfkc t = t"
    and "candidate_of_line nfkc raw = Some s"
  shows "printable s \<and> s \<noteq> [] \<and> take 1 s \<noteq> ''/'' \<and> last s \<noteq> CHR ''/'' \<and> \<not> contains ''//'' s"
proof -
  define s4 where "s4 = strip (QUERY_FRAGMENT_sub (URL_SCHEME_HOST_sub (strip (rstrip_newlines raw))))"
  define t where "t = rev (dropWhile (\<lambda>c. c = CHR ''/'') (rev (dropWhile (\<lambda>c. c = CHR ''/'') s4)))"
  have c: "t \<noteq> []" "s = normalize_and_map nfkc (collapse_slashes t)"
    using assms(3) unfolding candidate_of_line_def Let_def s4_def [symmetric] t_def [symmetric]
    by (auto split: if_splits)
  have "set s4 \<subseteq> set (rstrip_newlines raw)"
    unfolding s4_def
    using set_strip [of "QUERY_FRAGMENT_sub (URL_SCHEME_HOST_sub (strip (rstrip_newlines raw)))"]
      set_QUERY_FRAGMENT_sub [of "URL_SCHEME_HOST_sub (strip (rstrip_newlines raw))"]
      set_URL_SCHEME_HOST_sub [of "strip (rstrip_newlines raw)"]
      set_strip [of "rstrip_newlines raw"]
    by blast
  moreover have tp: "take 1 t \<noteq> ''/'' \<and> last t \<noteq> CHR ''/'' \<and> set t \<subseteq> set s4"
    by (rule trim_slashes [OF t_def c(1)])
  moreover note cp = collapse_slashes_props [of t]
  ultimately have "set (collapse_slashes t) \<subseteq> set (rstrip_newlines raw)" by blast
  then have p: "printable (collapse_slashes t)" using assms(1) by (auto simp: printable_iff)
  then have s: "s = collapse_slashes t"
    using c(2) assms(2) by (simp add: normalize_and_map_printable)
  have "take 1 (collapse_slashes t) \<noteq> ''/''"
    using cp c(1) tp by (cases "collapse_slashes t"; cases t) auto
  then show ?thesis using p cp c(1) tp unfolding s by simp
qed

lemma rev_dropWhile_rev_id: "x \<noteq> [] \<Longrightarrow> \<not> Q (last x) \<Longrightarrow> rev (dropWhile Q (rev x)) = x"
  by (cases x rule: rev_cases) simp_all

lemma dropWhile_hd_id: "x \<noteq> [] \<Longrightarrow> \<not> Q (hd x) \<Longrightarrow> dropWhile Q x = x"
  by (cases x) auto

lemma URL_SCHEME_HOST_sub_no_colon: "CHR '':'' \<notin> set s \<Longrightarrow> URL_SCHEME_HOST_sub s = s"
proof (cases s)
  case Nil
  then show ?thesis by (simp add: URL_SCHEME_HOST_sub_def)
next
  case (Cons c cs)
  assume n: "CHR '':'' \<notin> set s"
  have "take 3 (dropWhile is_scheme_char cs) \<noteq> ''://''"
  proof
    assume "take 3 (dropWhile is_scheme_char cs) = ''://''"
    then have "CHR '':'' \<in> set (take 3 (dropWhile is_scheme_char cs))" by simp
    then have "CHR '':'' \<in> set cs" by (meson in_set_takeD set_dropWhileD)
    then show False using n Cons by simp
  qed
  then show ?thesis using Cons by (simp add: URL_SCHEME_HOST_sub_def Let_def)
qed

lemma QUERY_FRAGMENT_sub_id:
  "CHR ''?'' \<notin> set s \<Longrightarrow> CHR ''#'' \<notin> set s \<Longrightarrow> QUERY_FRAGMENT_sub s = s"
  by (induction s) auto

lemma stable_entry_candidate:
  assumes "stable_entry e" and "nfkc e = e"
  shows "candidate_of_line nfkc e = Some e"
proof -
  have ne: "e \<noteq> []" and safe: "\<forall>c\<in>set e. is_safe c"
    using assms(1) by (simp_all add: stable_entry_def list_all_iff)
  have hs: "is_safe (hd e)" "is_safe (last e)" using ne safe by simp_all
  have hd: "hd e \<noteq> CHR ''/''" using assms(1) ne by (cases e) (auto simp: stable_entry_def)
  have la: "last e \<noteq> CHR ''/''" using assms(1) by (simp add: stable_entry_def)
  have "\<not> (last e = LF \<or> last e = CR)" using is_safe_facts(1,2) [OF hs(2)] by simp
  with ne have r1: "rstrip_newlines e = e"
    unfolding rstrip_newlines_def by (rule rev_dropWhile_rev_id [of e "\<lambda>c. c = LF \<or> c = CR"])
  have l1: "lstrip e = e"
    unfolding lstrip_def using ne is_safe_facts(3) [OF hs(1)] by (rule dropWhile_hd_id [of e isspace])
  have "rev (dropWhile isspace (rev e)) = e"
    using ne is_safe_facts(3) [OF hs(2)] by (rule rev_dropWhile_rev_id [of e isspace])
  then have s1: "strip e = e"
    unfolding strip_def rstrip_def using l1 by simp
  have c1: "\<not> COMMENT_RE_match e"
    using is_safe_facts(4) [OF hs(1)] l1 ne
    by (cases e) (auto simp: COMMENT_RE_match_def lstrip_def)
  have u1: "URL_SCHEME_HOST_sub e = e"
    using safe is_safe_facts(6) by (intro URL_SCHEME_HOST_sub_no_colon) blast
  have q1: "QUERY_FRAGMENT_sub e = e"
    using safe is_safe_facts(4,5) by (intro QUERY_FRAGMENT_sub_id) blast+
  have t1: "dropWhile (\<lambda>c. c = CHR ''/'') e = e"
    using ne hd by (rule dropWhile_hd_id [of e "\<lambda>c. c = CHR ''/''"])
  have t2: "rev (dropWhile (\<lambda>c. c = CHR ''/'') (rev e)) = e"
    using ne la by (rule rev_dropWhile_rev_id [of e "\<lambda>c. c = CHR ''/''"])
  have k1: "collapse_slashes e = e"
    using assms(1) by (intro collapse_slashes_id) (simp add: stable_entry_def)
  have "printable e" using safe is_safe_range by (fastforce simp: printable_iff)
  then have n1: "normalize_and_map nfkc e = e" using assms(2) by (rule normalize_and_map_printable)
  show ?thesis
    unfolding candidate_of_line_def Let_def r1 l1 s1 u1 q1 t1 t2 k1 n1
    using ne c1 by simp
qed

lemma stable_entry_plain_entries:
  assumes "stable_entry e"
  shows "plain_branch_entries default_options e = [e]"
proof -
  have q: "percent_encode_keep_slash e = e"
    using assms by (intro quote_safe) (simp add: stable_entry_def)
  show ?thesis
    using assms unfolding plain_branch_entries_def Let_def
    by (simp add: default_options_def stable_entry_def q)
qed

lemma stable_entry_main_step:
  assumes "stable_entry e" and "nfkc e = e"
  shows "main_step default_options nfkc e st = add_entry e st"
proof -
  have "take 1 e \<noteq> ''.''" using assms(1) by (simp add: stable_entry_def)
  then show ?thesis
    using main_step_candidate [OF stable_entry_candidate [of e nfkc, OF assms], of default_options st]
      process_candidate_plain [of e default_options st] stable_entry_plain_entries [OF assms(1)]
    by simp
qed

lemma plain_entry_stable:
  assumes "printable (rstrip_newlines raw)" and "\<forall>t. printable t \<longrightarrow> nfkc t = t"
    and "candidate_of_line nfkc raw = Some s" and "take 1 s \<noteq> ''.''"
    and "e \<in> set (plain_branch_entries default_options s)" and "CHR ''%'' \<notin> set e"
  shows "stable_entry e \<and> nfkc e = e"
proof -
  have nf: "s \<noteq> []" "take 1 s \<noteq> ''/''" "last s \<noteq> CHR ''/''" "\<not> contains ''//'' s"
    using candidate_normal_form [OF assms(1-3)] by simp_all
  have g: "\<not> traversal_indicator s"
    "\<not> (file_like_segment (last (split_on CHR ''/'' (lower s)))
         \<and> \<not> VERSION_RE_match (last (split_on CHR ''/'' (lower s))))"
    "length e \<le> 200" "e = percent_encode_keep_slash (lower s)"
    using assms(5) unfolding plain_branch_entries_def Let_def
    by (auto simp: default_options_def split: if_splits)
  have sf: "list_all is_safe (lower s)" and e: "e = lower s"
    using quote_no_pct [of "lower s"] assms(6) g(4) by simp_all
  have ne: "e \<noteq> []" using nf(1) e by (simp add: lower_def)
  have a: "take 1 e \<noteq> ''/''" "take 1 e \<noteq> ''.''"
    unfolding e using nf(2) assms(4) take1_lower [of "CHR ''/''" s] take1_lower [of "CHR ''.''" s]
    by (simp_all add: lower_char_slash lower_char_dot)
  have b: "last e \<noteq> CHR ''/''" unfolding e last_lower [OF nf(1)] lower_char_slash by (rule nf(3))
  have c: "\<not> contains ''//'' e" "\<not> traversal_indicator e" "lower e = e"
    unfolding e contains_slashes_lower traversal_indicator_lower lower_idem
    using nf(4) g(1) by simp_all
  have st: "stable_entry e"
    unfolding stable_entry_def using ne sf a b c g(2,3) e by simp
  have "printable e" using sf is_safe_range unfolding e by (fastforce simp: printable_iff list_all_iff)
  then show ?thesis using st assms(2) by blast
qed

lemma main_step_entries:
  "main_step opts nfkc raw st = fold add_entry (line_entries opts nfkc raw) st"
  using process_candidate_dot [of _ opts st] process_candidate_plain [of _ opts st]
  by (auto simp: main_step_def line_entries_def split: option.splits)

lemma fold_main_step_entries:
  "fold (main_step opts nfkc) raws st
     = fold add_entry (concat (map (line_entries opts nfkc) raws)) st"
  by (induction raws arbitrary: st) (simp_all add: main_step_entries)

lemma main_loop_entries:
  "set (out_order (main_loop opts nfkc raws)) \<subseteq> (\<Union>raw\<in>set raws. set (line_entries opts nfkc raw))"
  unfolding main_loop_def fold_main_step_entries
  using set_out_fold_add_entry [of "concat (map (line_entries opts nfkc) raws)" empty_output]
  by (auto simp: empty_output_def)

lemma fold_add_entry_fresh:
  "distinct es \<Longrightarrow> set es \<inter> seen st = {} \<Longrightarrow> out_order (fold add_entry es st) = out_order st @ es"
proof (induction es arbitrary: st)
  case Nil
  show ?case by simp
next
  case (Cons e es)
  have a: "add_entry e st = st\<lparr> seen := insert e (seen st), out_order := out_order st @ [e] \<rparr>"
    using Cons.prems(2) by (simp add: add_entry_def)
  have "set es \<inter> seen (add_entry e st) = {}" using Cons.prems unfolding a by auto
  then have "out_order (fold add_entry es (add_entry e st)) = out_order (add_entry e st) @ es"
    using Cons.IH Cons.prems(1) by simp
  then show ?case by (simp add: a)
qed

lemma fold_main_step_stable:
  "\<forall>e\<in>set es. stable_entry e \<and> nfkc e = e \<Longrightarrow>
     fold (main_step default_options nfkc) es st = fold add_entry es st"
  by (induction es arbitrary: st) (simp_all add: stable_entry_main_step)

text \<open>
  Claim C4, as amended. With the default options, for input lines of printable ASCII
  characters (on which NFKC is the identity) whose candidates are not dot-prefixed: every
  output entry that contains no \<open>%\<close> is emitted unchanged when it is fed back alone; and
  when no output entry contains \<open>%\<close>, feeding the whole output back reproduces it, entry
  for entry and in the same order.
\<close>

theorem plain_output_is_reproduced:
  assumes "\<forall>t. printable t \<longrightarrow> nfkc t = t"
    and "\<forall>raw\<in>set raws. printable (rstrip_newlines raw)"
    and "\<forall>raw\<in>set raws. \<forall>s. candidate_of_line nfkc raw = Some s \<longrightarrow> take 1 s \<noteq> ''.''"
  shows "(\<forall>e\<in>set (main_output default_options nfkc raws). CHR ''%'' \<notin> set e \<longrightarrow>
            main_output default_options nfkc [e] = [e])
       \<and> ((\<forall>e\<in>set (main_output default_options nfkc raws). CHR ''%'' \<notin> set e) \<longrightarrow>
            main_output default_options nfkc (main_output default_options nfkc raws)
              = main_output default_options nfkc raws)"
proof -
  let ?out = "main_output default_options nfkc raws"
  have out: "?out = out_order (main_loop default_options nfkc raws)"
    by (simp add: main_output_def final_output_def default_options_def)
  have mo: "\<And>xs. main_output default_options nfkc xs
              = out_order (fold (main_step default_options nfkc) xs empty_output)"
    by (simp add: main_output_def final_output_def default_options_def main_loop_def)
  have stable: "stable_entry e \<and> nfkc e = e" if e: "e \<in> set ?out" "CHR ''%'' \<notin> set e" for e
  proof -
    obtain raw where raw: "raw \<in> set raws" "e \<in> set (line_entries default_options nfkc raw)"
      using e(1) main_loop_entries [of default_options nfkc raws] unfolding out by blast
    then obtain s where s: "candidate_of_line nfkc raw = Some s"
      by (cases "candidate_of_line nfkc raw") (auto simp: line_entries_def)
    have nd: "take 1 s \<noteq> ''.''" using assms(3) raw(1) s by blast
    then have "e \<in> set (plain_branch_entries default_options s)"
      using raw(2) s by (simp add: line_entries_def)
    then show ?thesis
      using plain_entry_stable [of raw nfkc s e] assms(1,2) raw(1) s nd e(2) by blast
  qed
  have one: "main_output default_options nfkc [e] = [e]"
    if e: "e \<in> set ?out" "CHR ''%'' \<notin> set e" for e
    using stable [OF e] stable_entry_main_step [of e nfkc empty_output]
    by (simp add: mo add_entry_def empty_output_def)
  have all: "main_output default_options nfkc ?out = ?out"
    if h: "\<forall>e\<in>set ?out. CHR ''%'' \<notin> set e"
  proof -
    have "\<forall>e\<in>set ?out. stable_entry e \<and> nfkc e = e" using stable h by blast
    then have "fold (main_step default_options nfkc) ?out empty_output
                 = fold add_entry ?out empty_output"
      by (rule fold_main_step_stable)
    moreover have "distinct ?out"
      using main_loop_inv [of default_options nfkc raws] unfolding out output_inv_def by simp
    then have "out_order (fold add_entry ?out empty_output) = ?out"
      using fold_add_entry_fresh [of ?out empty_output] by (simp add: empty_output_def)
    ultimately show ?thesis by (simp add: mo)
  qed
  from one all show ?thesis by blast
qed

theorem plain_output_is_reproduced_witness:
  "list_all (\<lambda>raw. printable (rstrip_newlines raw))
        [''https://x.com/Admin/Users?id=1'', ''v1.2/Users'', ''/admin/'']
   \<and> map (candidate_of_line nfkc_ascii) [''https://x.com/Admin/Users?id=1'', ''v1.2/Users'', ''/admin/'']
        = [Some ''Admin/Users'', Some ''v1.2/Users'', Some ''admin'']
   \<and> main_output default_options nfkc_ascii
        [''https://x.com/Admin/Users?id=1'', ''v1.2/Users'', ''/admin/'']
        = [''admin/users'', ''v1.2/users'', ''admin'']
   \<and> main_output default_options nfkc_ascii [''admin/users'', ''v1.2/users'', ''admin'']
        = [''admin/users'', ''v1.2/users'', ''admin'']"
proof -
  let ?raws = "[''https://x.com/Admin/Users?id=1'', ''v1.2/Users'', ''/admin/'']"
  have a: "\<forall>t. printable t \<longrightarrow> nfkc_ascii t = t" by (simp add: nfkc_ascii_def)
  have b: "list_all (\<lambda>raw. printable (rstrip_newlines raw)) ?raws" by code_simp
  have c: "map (candidate_of_line nfkc_ascii) ?raws
        = [Some ''Admin/Users'', Some ''v1.2/Users'', Some ''admin'']" by code_simp
  have d: "main_output default_options nfkc_ascii ?raws = [''admin/users'', ''v1.2/users'', ''admin'']"
    by code_simp
  have b': "\<forall>raw\<in>set ?raws. printable (rstrip_newlines raw)" using b by (simp add: list_all_iff)
  have c': "\<forall>raw\<in>set ?raws. \<forall>s. candidate_of_line nfkc_ascii raw = Some s \<longrightarrow> take 1 s \<noteq> ''.''"
    using c by auto
  have e: "\<forall>e\<in>set (main_output default_options nfkc_ascii ?raws). CHR ''%'' \<notin> set e"
    unfolding d by simp
  from plain_output_is_reproduced [OF a b' c'] e
  have "main_output default_options nfkc_ascii (main_output default_options nfkc_ascii ?raws)
          = main_output default_options nfkc_ascii ?raws" by blast
  then have "main_output default_options nfkc_ascii [''admin/users'', ''v1.2/users'', ''admin'']
        = [''admin/users'', ''v1.2/users'', ''admin'']" unfolding d .
  with b c d show ?thesis by blast
qed

text \<open>
  The line \<open>a b\<close> is emitted as \<open>a%20b\<close>; fed back, the \<open>%\<close> is encoded again. The dot
  branch emits the bare core \<open>./x\<close> of \<open>../x\<close>, which fed back adds \<open>/x\<close>.
\<close>

theorem encoded_entry_reencoded_counterexample:
  "main_output default_options nfkc_ascii [''a b''] = [''a%20b'']
   \<and> main_output default_options nfkc_ascii [''a%20b''] = [''a%2520b'']
   \<and> main_output default_options nfkc_ascii [''../x''] = [''../x'', ''./x'']
   \<and> main_output default_options nfkc_ascii [''../x'', ''./x''] = [''../x'', ''./x'', ''/x'']"
  by code_simp

section \<open>The candidate holds no line feed\<close>

text \<open>
  The patterns applied after \<open>normalize_and_map\<close> read \<open>$\<close> as the end of the string. This
  is exact: whatever NFKC returns, the candidate and its lower-case form hold no control
  character, hence no line feed.
\<close>

lemma category_C_LF: "category_C LF"
  by (simp add: category_C_def LF_def Let_def)

lemma lower_char_LF: "(lower_char c = LF) = (c = LF)"
  by (auto simp: char_eq_code [of _ LF] of_char_LF lower_char_code Let_def)

lemma candidate_no_line_feed:
  assumes "candidate_of_line nfkc raw = Some s"
  shows "LF \<notin> set s \<and> LF \<notin> set (lower s)"
proof -
  obtain t where "s = normalize_and_map nfkc t"
    using assms unfolding candidate_of_line_def Let_def by (auto split: if_splits)
  then have "\<forall>c\<in>set s. \<not> category_C c" by (simp add: normalize_and_map_def)
  then have "LF \<notin> set s" using category_C_LF by blast
  moreover have "LF \<in> set (lower s) \<Longrightarrow> LF \<in> set s"
  proof -
    assume "LF \<in> set (lower s)"
    then obtain c where c: "c \<in> set s" "lower_char c = LF" by (auto simp: lower_def)
    then show "LF \<in> set s" by (simp add: lower_char_LF)
  qed
  ultimately show ?thesis by blast
qed

end
